theory Spec2Isabelle
  imports Main "HOL-Library.Word" "HOL-Library.Signed_Division" "HOL-Library.Finite_Map"
begin

unbundle bit_operations_syntax

section \<open>Event algebra (pkg/filemanager/eventhub/event.go)\<close>

text \<open>
  \<^verbatim>\<open>EventType\<close> is a Go string type; the four constants are its named values, and any
  other string can occur as well (events are also read back from their JSON form).
\<close>

type_synonym EventType = string

definition EventTypeCreate :: EventType where "EventTypeCreate = ''create''"
definition EventTypeModify :: EventType where "EventTypeModify = ''modify''"
definition EventTypeRename :: EventType where "EventTypeRename = ''rename''"
definition EventTypeDelete :: EventType where "EventTypeDelete = ''delete''"

record Event =
  Type :: EventType
  FileID :: string
  From :: string
  To :: string

record eventState =
  baseType :: EventType
  originalSrc :: string
  currentDst :: string

type_synonym states = "string \<rightharpoonup> eventState"

text \<open>
  The inner loop that removes a file id from \<^verbatim>\<open>order\<close>: it cuts out the first
  position holding the id and breaks.
\<close>

fun removeFromOrder :: "string \<Rightarrow> string list \<Rightarrow> string list" where
  "removeFromOrder fid [] = []"
| "removeFromOrder fid (x # rest) = (if x = fid then rest else x # removeFromOrder fid rest)"

text \<open>One iteration of the main loop of \<^verbatim>\<open>DebounceEvents\<close> over the pair (states, order).\<close>

definition debounceStep :: "states \<times> string list \<Rightarrow> Event \<Rightarrow> states \<times> string list" where
  "debounceStep acc e =
    (case acc of (states, order) \<Rightarrow>
      (case states (FileID e) of
         None \<Rightarrow>
           (states(FileID e \<mapsto> \<lparr>baseType = Type e, originalSrc = From e, currentDst = To e\<rparr>),
            order @ [FileID e])
       | Some state \<Rightarrow>
           if Type e = EventTypeCreate then
             (if baseType state = EventTypeDelete
              then (states(FileID e \<mapsto>
                      state\<lparr>baseType := EventTypeCreate, originalSrc := From e, currentDst := ''''\<rparr>),
                    order)
              else (states, order))
           else if Type e = EventTypeModify then (states, order)
           else if Type e = EventTypeRename then
             (if baseType state = EventTypeCreate
              then (states(FileID e \<mapsto> state\<lparr>originalSrc := To e, currentDst := ''''\<rparr>), order)
              else if baseType state = EventTypeModify
              then (states(FileID e \<mapsto>
                      state\<lparr>baseType := EventTypeRename, currentDst := To e, originalSrc := From e\<rparr>),
                    order)
              else if baseType state = EventTypeRename
              then (if originalSrc state = To e
                    then (states(FileID e := None), removeFromOrder (FileID e) order)
                    else (states(FileID e \<mapsto> state\<lparr>currentDst := To e\<rparr>), order))
              else (states, order))
           else if Type e = EventTypeDelete then
             (if baseType state = EventTypeCreate
              then (states(FileID e := None), removeFromOrder (FileID e) order)
              else if baseType state = EventTypeModify
              then (states(FileID e \<mapsto>
                      state\<lparr>baseType := EventTypeDelete, originalSrc := From e, currentDst := ''''\<rparr>),
                    order)
              else if baseType state = EventTypeRename
              then (states(FileID e \<mapsto>
                      state\<lparr>baseType := EventTypeDelete, originalSrc := From e, currentDst := ''''\<rparr>),
                    order)
              else (states, order))
           else (states, order)))"

text \<open>
  The event emitted for one entry of \<^verbatim>\<open>order\<close> in the output loop: none when the id has
  no state or the base type is none of the four constants. Fields the Go struct literal
  leaves out hold the empty string.
\<close>

definition emitEvent :: "states \<Rightarrow> string \<Rightarrow> Event list" where
  "emitEvent states fileID =
    (case states fileID of
       None \<Rightarrow> []
     | Some state \<Rightarrow>
         if baseType state = EventTypeCreate
         then [\<lparr>Type = EventTypeCreate, FileID = fileID, From = originalSrc state, To = ''''\<rparr>]
         else if baseType state = EventTypeModify
         then [\<lparr>Type = EventTypeModify, FileID = fileID, From = originalSrc state, To = ''''\<rparr>]
         else if baseType state = EventTypeRename
         then [\<lparr>Type = EventTypeRename, FileID = fileID, From = originalSrc state,
                To = currentDst state\<rparr>]
         else if baseType state = EventTypeDelete
         then [\<lparr>Type = EventTypeDelete, FileID = fileID, From = originalSrc state, To = ''''\<rparr>]
         else [])"

fun buildResult :: "states \<Rightarrow> string list \<Rightarrow> Event list" where
  "buildResult states [] = []"
| "buildResult states (fileID # rest) = emitEvent states fileID @ buildResult states rest"

definition runEvents :: "Event list \<Rightarrow> states \<times> string list" where
  "runEvents xs = foldl debounceStep (Map.empty, []) xs"

text \<open>
  \<^verbatim>\<open>DebounceEvents\<close>. Slices are lists of event values: the nil slice returned for an
  empty input and an empty non-nil slice are both the empty list.
\<close>

definition DebounceEvents :: "Event list \<Rightarrow> Event list" where
  "DebounceEvents xs =
    (if length xs = 0 then []
     else (case runEvents xs of (states, order) \<Rightarrow> buildResult states order))"

definition initState :: "Event \<Rightarrow> eventState" where
  "initState e = \<lparr>baseType = Type e, originalSrc = From e, currentDst = To e\<rparr>"

definition normalEvent :: "Event \<Rightarrow> bool" where
  "normalEvent e =
    (if Type e = EventTypeRename then True
     else (Type e = EventTypeCreate \<or> Type e = EventTypeModify \<or> Type e = EventTypeDelete)
          \<and> To e = '''')"

definition orderInv :: "states \<times> string list \<Rightarrow> bool" where
  "orderInv acc = (distinct (snd acc) \<and> set (snd acc) \<subseteq> dom (fst acc))"

definition putInit :: "states \<Rightarrow> Event \<Rightarrow> states" where
  "putInit st e = st(FileID e \<mapsto> initState e)"

text \<open>
  Positions in the input. \<open>firstIndex f xs\<close> is the index of the first event of \<open>xs\<close>
  for file id \<open>f\<close>. \<open>introIndex f xs\<close> is the index of the last event for \<open>f\<close> that
  found no accumulator entry for \<open>f\<close>, that is the event that introduced the entry
  \<open>f\<close> has at the end of the loop: the first appearance of \<open>f\<close> when its entry was
  never dropped, and otherwise the first event for \<open>f\<close> after the last drop.
\<close>

definition firstIndex :: "string \<Rightarrow> Event list \<Rightarrow> nat" where
  "firstIndex f xs = length (takeWhile (\<lambda>e. FileID e \<noteq> f) xs)"

definition introIndex :: "string \<Rightarrow> Event list \<Rightarrow> nat" where
  "introIndex f xs =
    last (0 # filter (\<lambda>i. FileID (xs ! i) = f \<and> fst (runEvents (take i xs)) f = None)
                [0..<length xs])"

definition inFirstAppearanceOrder :: "Event list \<Rightarrow> Event list \<Rightarrow> bool" where
  "inFirstAppearanceOrder xs out =
    sorted_wrt (\<lambda>a b. firstIndex (FileID a) xs < firstIndex (FileID b) xs) out"

definition inIntroductionOrder :: "Event list \<Rightarrow> Event list \<Rightarrow> bool" where
  "inIntroductionOrder xs out =
    sorted_wrt (\<lambda>a b. introIndex (FileID a) xs < introIndex (FileID b) xs) out"

definition mkEvent :: "EventType \<Rightarrow> string \<Rightarrow> string \<Rightarrow> string \<Rightarrow> Event" where
  "mkEvent t f a b = \<lparr>Type = t, FileID = f, From = a, To = b\<rparr>"

definition reintroduced :: "Event list" where
  "reintroduced =
    [mkEvent EventTypeCreate ''f1'' ''/a'' '''', mkEvent EventTypeCreate ''f2'' ''/b'' '''',
     mkEvent EventTypeDelete ''f1'' ''/a'' '''', mkEvent EventTypeCreate ''f1'' ''/a'' '''']"

definition introInv :: "Event list \<Rightarrow> bool" where
  "introInv xs =
    (sorted_wrt (\<lambda>f g. introIndex f xs < introIndex g xs) (snd (runEvents xs)) \<and>
     list_all (\<lambda>f. introIndex f xs < length xs) (snd (runEvents xs)))"

text \<open>
  \<open>neverDropped f xs\<close>: no event of \<open>xs\<close> removes an accumulator entry for \<open>f\<close>;
  an entry present before an event is present after it.
\<close>

definition neverDropped :: "string \<Rightarrow> Event list \<Rightarrow> bool" where
  "neverDropped f xs =
    list_all (\<lambda>i. fst (runEvents (take i xs)) f = None
                  \<or> fst (runEvents (take (Suc i) xs)) f \<noteq> None) [0..<length xs]"

section \<open>AES-256-CTR cryptor (package encrypt)\<close>

type_synonym byte = "8 word"

subsection \<open>Counter arithmetic\<close>

text \<open>
  \<^verbatim>\<open>incrementCounter(counter []byte, blocks int64)\<close>. The loop indices \<^verbatim>\<open>i\<close> and
  \<^verbatim>\<open>j\<close> run downwards and stop below 0; the loop functions take the index plus one,
  so that the argument \<open>0\<close> is the exit \<^verbatim>\<open>i < 0\<close>. The \<^verbatim>\<open>uint64\<close> values
  \<^verbatim>\<open>sum\<close> and \<^verbatim>\<open>carry\<close> stay below 511 and are natural numbers; an \<^verbatim>\<open>int64\<close>
  is an integer in its range, on which \<open>AND\<close> and \<open>drop_bit\<close> are the two's complement
  \<^verbatim>\<open>&\<close> and the arithmetic \<^verbatim>\<open>>>\<close>.
\<close>

fun carryLoop :: "nat \<Rightarrow> nat \<Rightarrow> byte list \<Rightarrow> byte list" where
  "carryLoop 0 carry counter = counter"
| "carryLoop (Suc j) carry counter =
    (if carry > 0
     then (let sum = unat (counter ! j) + carry
           in carryLoop j (drop_bit 8 sum) (counter[j := of_nat (sum AND 0xff)]))
     else counter)"

fun blocksLoop :: "nat \<Rightarrow> int \<Rightarrow> byte list \<Rightarrow> byte list" where
  "blocksLoop 0 blocks counter = counter"
| "blocksLoop (Suc i) blocks counter =
    (if blocks > 0
     then (let sum = unat (counter ! i) + nat (blocks AND 0xff);
               counter1 = counter[i := of_nat (sum AND 0xff)]
           in blocksLoop i (drop_bit 8 blocks)
                (if sum > 0xff then carryLoop i (drop_bit 8 sum) counter1 else counter1))
     else counter)"

text \<open>
  The first access is \<^verbatim>\<open>counter[15]\<close>, reached when \<^verbatim>\<open>blocks > 0\<close>: on a shorter
  slice the Go code panics there (\<open>None\<close>). All later indices are smaller.
\<close>

definition incrementCounter :: "byte list \<Rightarrow> int \<Rightarrow> byte list option" where
  "incrementCounter counter blocks =
    (if blocks > 0 \<and> length counter < 16 then None
     else Some (blocksLoop 16 blocks counter))"

text \<open>The value of a byte string read as a big-endian number.\<close>

primrec be_val :: "byte list \<Rightarrow> nat" where
  "be_val [] = 0"
| "be_val (b # bs) = unat b * 256 ^ length bs + be_val bs"

definition int64 :: "int \<Rightarrow> bool" where
  "int64 k = (- (2 ^ 63) \<le> k \<and> k < 2 ^ 63)"

subsection \<open>Errors, the block cipher and the CTR stream\<close>

text \<open>
  Go error values: \<^verbatim>\<open>io.EOF\<close>, any other error (with its message), and a run-time panic
  (nil dereference, index out of range), which ends the call.
\<close>

datatype error = EOF | Err string | Panic string

text \<open>
  The standard library is not part of the repository. \<^verbatim>\<open>crypto/aes\<close> enters as a
  parameter \<open>aes\<close>, the function from a key to its block encryption;
  \<^verbatim>\<open>aes.NewCipher\<close> rejects keys that are not 16, 24 or 32 bytes long.
  \<^verbatim>\<open>cipher.NewCTR\<close> and \<^verbatim>\<open>XORKeyStream\<close> follow the documented CTR mode: the key
  stream is the encryption of the successive counter values, the counter being a
  big-endian number incremented by one per block; a stream remembers how many bytes of
  the current block are used up.
\<close>

type_synonym blockFn = "byte list \<Rightarrow> byte list"

definition NewCipher :: "(byte list \<Rightarrow> blockFn) \<Rightarrow> byte list \<Rightarrow> error + blockFn" where
  "NewCipher aes key =
    (if length key = 16 \<or> length key = 24 \<or> length key = 32 then Inr (aes key)
     else Inl (Err ''crypto/aes: invalid key size''))"

record ctrStream =
  block :: blockFn
  ctr :: "byte list"
  outUsed :: nat

definition NewCTR :: "blockFn \<Rightarrow> byte list \<Rightarrow> ctrStream" where
  "NewCTR b iv = \<lparr>block = b, ctr = iv, outUsed = 0\<rparr>"

text \<open>The counter increment of the CTR stream: add one from the last byte, stop at the
  first byte that does not wrap to 0.\<close>

fun incLoop :: "nat \<Rightarrow> byte list \<Rightarrow> byte list" where
  "incLoop 0 c = c"
| "incLoop (Suc i) c =
    (let c' = c[i := c ! i + 1] in if c' ! i \<noteq> 0 then c' else incLoop i c')"

definition ctrInc :: "byte list \<Rightarrow> byte list" where
  "ctrInc c = incLoop (length c) c"

fun XORKeyStream :: "ctrStream \<Rightarrow> byte list \<Rightarrow> byte list \<times> ctrStream" where
  "XORKeyStream s [] = ([], s)"
| "XORKeyStream s (x # xs) =
    (let k = block s (ctr s) ! outUsed s;
         s' = (if Suc (outUsed s) = 16 then s\<lparr>ctr := ctrInc (ctr s), outUsed := 0\<rparr>
               else s\<lparr>outUsed := Suc (outUsed s)\<rparr>);
         r = XORKeyStream s' xs
     in ((x XOR k) # fst r, snd r))"

subsection \<open>The cryptor\<close>

record EncryptMetadata =
  Algorithm :: string
  Key :: "byte list"
  KeyPlainText :: "byte list"
  IV :: "byte list"

text \<open>Modelled from the spec: the constant \<^verbatim>\<open>types.CipherAES256CTR\<close> of package
  \<^verbatim>\<open>inventory/types\<close>, which is not among the sources; the algorithm set is fixed to
  AES-256-CTR.\<close>

definition CipherAES256CTR :: string where
  "CipherAES256CTR = ''aes-256-ctr''"

text \<open>
  The source bound to a cryptor is an external object behind the interfaces
  \<^verbatim>\<open>io.ReadCloser\<close> and \<^verbatim>\<open>io.Seeker\<close>. Its state has type \<open>'s\<close> and is passed
  through every call; the interface values held by the cryptor are the methods, \<open>None\<close>
  for a nil interface. \<^verbatim>\<open>Read(p)\<close> receives the buffer and returns the buffer after
  the call, the byte count \<^verbatim>\<open>n\<close> and the error; \<^verbatim>\<open>Seek(offset, whence)\<close> returns the
  new offset and the error.
\<close>

type_synonym 's readFn = "'s \<Rightarrow> byte list \<Rightarrow> (byte list \<times> nat \<times> error option) \<times> 's"
type_synonym 's seekFn = "'s \<Rightarrow> int \<Rightarrow> int \<Rightarrow> (int \<times> error option) \<times> 's"

record 's AES256CTR =
  src :: "'s readFn option"
  seeker :: "'s seekFn option"
  stream :: "ctrStream option"
  metadata :: "EncryptMetadata option"
  counterOffset :: int
  pos :: int
  size :: int
  eof :: bool

definition SeekStart :: int where "SeekStart = 0"
definition SeekCurrent :: int where "SeekCurrent = 1"
definition SeekEnd :: int where "SeekEnd = 2"

text \<open>\<^verbatim>\<open>int64\<close> addition wraps around in two's complement.\<close>

definition add64 :: "int \<Rightarrow> int \<Rightarrow> int" where
  "add64 a b = signed_take_bit 63 (a + b)"

definition NewAES256CTR :: "'s AES256CTR" where
  "NewAES256CTR =
    \<lparr>src = None, seeker = None, stream = None, metadata = None, counterOffset = 0, pos = 0,
     size = - 1, eof = False\<rparr>"

text \<open>
  \<^verbatim>\<open>DecryptWithMasterKey\<close> and \<^verbatim>\<open>LoadMetadata\<close>. The master key vault is the
  result of its \<^verbatim>\<open>GetMasterKey\<close> call.
\<close>

definition DecryptWithMasterKey ::
  "(byte list \<Rightarrow> blockFn) \<Rightarrow> byte list \<Rightarrow> byte list \<Rightarrow> error + byte list" where
  "DecryptWithMasterKey aes masterKey encryptedData =
    (if length encryptedData < 16 then Inl (Err ''crypto/aes: invalid key size'')
     else (case NewCipher aes masterKey of
             Inl err \<Rightarrow> Inl err
           | Inr b \<Rightarrow>
               Inr (fst (XORKeyStream (NewCTR b (take 16 encryptedData))
                          (drop 16 encryptedData)))))"

definition DecriptKey ::
  "(byte list \<Rightarrow> blockFn) \<Rightarrow> error + byte list \<Rightarrow> byte list \<Rightarrow> error + byte list" where
  "DecriptKey aes keyVault encryptedKey =
    (case keyVault of
       Inl err \<Rightarrow> Inl (Err ''failed to get master key'')
     | Inr masterKey \<Rightarrow> DecryptWithMasterKey aes masterKey encryptedKey)"

definition LoadMetadata ::
  "(byte list \<Rightarrow> blockFn) \<Rightarrow> error + byte list \<Rightarrow> 's AES256CTR \<Rightarrow> EncryptMetadata option
    \<Rightarrow> error option \<times> 's AES256CTR" where
  "LoadMetadata aes keyVault e encryptedMetadata =
    (case encryptedMetadata of
       None \<Rightarrow> (Some (Err ''encryption metadata is nil''), e)
     | Some md \<Rightarrow>
         if Algorithm md \<noteq> CipherAES256CTR then (Some (Err ''unsupported algorithm''), e)
         else if length (KeyPlainText md) > 0 then (None, e\<lparr>metadata := Some md\<rparr>)
         else (case DecriptKey aes keyVault (Key md) of
                 Inl err \<Rightarrow> (Some (Err ''failed to decrypt encryption key''), e)
               | Inr decryptedKey \<Rightarrow>
                   (None, e\<lparr>metadata := Some \<lparr>Algorithm = Algorithm md, Key = [],
                                               KeyPlainText = decryptedKey, IV = IV md\<rparr>\<rparr>)))"

text \<open>
  \<^verbatim>\<open>initCipherStream\<close>. The counter is a fresh 16-byte slice holding the first bytes of
  the IV. \<^verbatim>\<open>/\<close> and \<^verbatim>\<open>%\<close> truncate towards zero (\<open>sdiv\<close>, \<open>smod\<close>).
\<close>

definition initCipherStream ::
  "(byte list \<Rightarrow> blockFn) \<Rightarrow> 's AES256CTR \<Rightarrow> int \<Rightarrow> error + 's AES256CTR" where
  "initCipherStream aes e absolutePosition =
    (case metadata e of
       None \<Rightarrow> Inl (Panic ''nil pointer dereference'')
     | Some md \<Rightarrow>
        (case NewCipher aes (KeyPlainText md) of
           Inl err \<Rightarrow> Inl (Err ''failed to create AES cipher'')
         | Inr b \<Rightarrow>
            (let counter = take 16 (IV md) @ replicate (16 - length (IV md)) 0
             in case (if absolutePosition > 0
                      then incrementCounter counter (absolutePosition sdiv 16)
                      else Some counter) of
                  None \<Rightarrow> Inl (Panic ''index out of range'')
                | Some counter' \<Rightarrow>
                   (let s = NewCTR b counter';
                        offsetInBlock = absolutePosition smod 16
                    in Inr (e\<lparr>stream :=
                          Some (if offsetInBlock > 0
                                then snd (XORKeyStream s (replicate (nat offsetInBlock) 0))
                                else s)\<rparr>)))))"

definition SetSource ::
  "(byte list \<Rightarrow> blockFn) \<Rightarrow> 's AES256CTR \<Rightarrow> 's readFn option \<Rightarrow> 's seekFn option \<Rightarrow> int \<Rightarrow> int
    \<Rightarrow> error option \<times> 's AES256CTR" where
  "SetSource aes e src' seeker' size' counterOffset' =
    (case metadata e of
       None \<Rightarrow> (Some (Err ''metadata not loaded, call LoadMetadata first''), e)
     | Some md \<Rightarrow>
        (let e1 = e\<lparr>src := src', seeker := seeker', counterOffset := counterOffset', pos := 0,
                     eof := False, size := size'\<rparr>
         in case initCipherStream aes e1 counterOffset' of
              Inl err \<Rightarrow> (Some err, e1)
            | Inr e2 \<Rightarrow> (None, e2)))"

text \<open>
  The tail of \<^verbatim>\<open>Read\<close> after the error handling: decrypt \<^verbatim>\<open>p[:n]\<close> in place and
  advance \<^verbatim>\<open>pos\<close>, then return \<^verbatim>\<open>n, err\<close>.
\<close>

definition decryptInPlace ::
  "'s AES256CTR \<Rightarrow> byte list \<Rightarrow> nat \<Rightarrow> error option
    \<Rightarrow> (byte list \<times> nat \<times> error option) \<times> 's AES256CTR" where
  "decryptInPlace e p n err =
    (if n > 0
     then (case stream e of
             None \<Rightarrow> ((p, n, Some (Panic ''nil pointer dereference'')), e)
           | Some s \<Rightarrow>
               (let r = XORKeyStream s (take n p)
                in ((fst r @ drop n p, n, err),
                    e\<lparr>stream := Some (snd r), pos := add64 (pos e) (int n)\<rparr>)))
     else ((p, n, err), e))"

definition Read ::
  "'s AES256CTR \<Rightarrow> 's \<Rightarrow> byte list \<Rightarrow> (byte list \<times> nat \<times> error option) \<times> 's AES256CTR \<times> 's" where
  "Read e w p =
    (case src e of
       None \<Rightarrow> ((p, 0, Some (Err ''source not set, call SetSource first'')), e, w)
     | Some rd \<Rightarrow>
        if eof e then ((p, 0, Some EOF), e, w)
        else (case rd w p of
                ((p1, n, err), w1) \<Rightarrow>
                  (case err of
                     None \<Rightarrow> (case decryptInPlace e p1 n err of (res, e') \<Rightarrow> (res, e', w1))
                   | Some EOF \<Rightarrow>
                       (let e1 = e\<lparr>eof := True\<rparr>
                        in if n = 0 then ((p1, 0, Some EOF), e1, w1)
                           else (case decryptInPlace e1 p1 n err of (res, e') \<Rightarrow> (res, e', w1)))
                   | Some other \<Rightarrow> ((p1, n, Some other), e, w1))))"

text \<open>The position computed by the \<^verbatim>\<open>switch whence\<close> of \<^verbatim>\<open>Seek\<close>, or its error.\<close>

definition seekTarget :: "'s AES256CTR \<Rightarrow> int \<Rightarrow> int \<Rightarrow> error + int" where
  "seekTarget e offset whence =
    (if whence = SeekStart then Inr offset
     else if whence = SeekCurrent then Inr (add64 (pos e) offset)
     else if whence = SeekEnd
     then (if size e < 0 then Inl (Err ''size unknown, call SetSize before using SeekEnd'')
           else Inr (add64 (size e) offset))
     else Inl (Err ''invalid whence''))"

definition Seek ::
  "(byte list \<Rightarrow> blockFn) \<Rightarrow> 's AES256CTR \<Rightarrow> 's \<Rightarrow> int \<Rightarrow> int
    \<Rightarrow> (int \<times> error option) \<times> 's AES256CTR \<times> 's" where
  "Seek aes e w offset whence =
    (case metadata e of
       None \<Rightarrow> ((0, Some (Err ''metadata not loaded, call LoadMetadata first'')), e, w)
     | Some md \<Rightarrow>
    (case src e of
       None \<Rightarrow> ((0, Some (Err ''source not set, call SetSource first'')), e, w)
     | Some rd \<Rightarrow>
    (case seeker e of
       None \<Rightarrow> ((0, Some (Err ''source does not support seeking'')), e, w)
     | Some sk \<Rightarrow>
    (case seekTarget e offset whence of
       Inl err \<Rightarrow> ((0, Some err), e, w)
     | Inr newPos \<Rightarrow>
        if newPos < 0 then ((0, Some (Err ''negative position'')), e, w)
        else (let absPos = add64 (counterOffset e) newPos
              in case sk w absPos SeekStart of
                   ((r, Some err), w1) \<Rightarrow> ((0, Some (Err ''failed to seek source'')), e, w1)
                 | ((r, None), w1) \<Rightarrow>
                     (case initCipherStream aes e absPos of
                        Inl err \<Rightarrow>
                          ((0, Some (Err ''failed to reinitialize cipher stream'')), e, w1)
                      | Inr e1 \<Rightarrow> ((newPos, None), e1\<lparr>pos := newPos, eof := False\<rparr>, w1)))))))"

subsection \<open>An in-memory seekable source\<close>

text \<open>
  A byte slice behind \<^verbatim>\<open>io.ReadCloser\<close> and \<^verbatim>\<open>io.Seeker\<close>, with the behaviour of
  \<^verbatim>\<open>bytes.Reader\<close>: a read delivers as many of the remaining bytes as fit and reports
  \<^verbatim>\<open>io.EOF\<close> with no bytes at the end; a seek sets the offset.
\<close>

record memSource =
  content :: "byte list"
  offset :: nat

definition memRead :: "memSource readFn" where
  "memRead w p =
    (if offset w \<ge> length (content w) then ((p, 0, Some EOF), w)
     else (let n = min (length p) (length (content w) - offset w)
           in ((take n (drop (offset w) (content w)) @ drop n p, n, None),
               w\<lparr>offset := offset w + n\<rparr>)))"

definition memSeek :: "memSource seekFn" where
  "memSeek w off whence =
    (let abs' = (if whence = SeekStart then Some off
                 else if whence = SeekCurrent then Some (int (offset w) + off)
                 else if whence = SeekEnd then Some (int (length (content w)) + off)
                 else None)
     in case abs' of
          None \<Rightarrow> ((0, Some (Err ''bytes.Reader.Seek: invalid whence'')), w)
        | Some a \<Rightarrow>
            if a < 0 then ((0, Some (Err ''bytes.Reader.Seek: negative position'')), w)
            else ((a, None), w\<lparr>offset := nat a\<rparr>))"

text \<open>
  AES-CTR as the specification defines it, independent of the code. The IV is a 128-bit
  big-endian counter; the block with index \<open>m\<close> is encrypted under the counter
  \<open>IV + m\<close> modulo \<open>2 ^ 128\<close>; key stream byte \<open>q\<close> is byte \<open>q mod 16\<close> of the
  encryption of the counter of block \<open>q div 16\<close>. \<open>ctrXor aes K iv q xs\<close> combines
  \<open>xs\<close> with the key stream from byte \<open>q\<close> on; the encryption of an object \<open>P\<close> is
  \<open>ctrXor aes K iv 0 P\<close>.
\<close>

fun be_bytes :: "nat \<Rightarrow> nat \<Rightarrow> byte list" where
  "be_bytes 0 v = []"
| "be_bytes (Suc n) v = be_bytes n (v div 256) @ [of_nat (v mod 256)]"

definition ctrBlock :: "byte list \<Rightarrow> nat \<Rightarrow> byte list" where
  "ctrBlock iv blockIndex = be_bytes 16 ((be_val iv + blockIndex) mod 2 ^ 128)"

definition keystreamByte :: "(byte list \<Rightarrow> blockFn) \<Rightarrow> byte list \<Rightarrow> byte list \<Rightarrow> nat \<Rightarrow> byte" where
  "keystreamByte aes K iv q = aes K (ctrBlock iv (q div 16)) ! (q mod 16)"

definition ctrXor ::
  "(byte list \<Rightarrow> blockFn) \<Rightarrow> byte list \<Rightarrow> byte list \<Rightarrow> nat \<Rightarrow> byte list \<Rightarrow> byte list" where
  "ctrXor aes K iv q xs = map (\<lambda>i. xs ! i XOR keystreamByte aes K iv (q + i)) [0..<length xs]"

text \<open>
  The runs of the cipher round-trip, written as a caller writes them: every error
  returned on the way ends the run and is its result. \<open>openCryptor\<close>: a new cryptor,
  \<^verbatim>\<open>LoadMetadata\<close> with a plaintext file key and IV, \<^verbatim>\<open>SetSource\<close>. \<open>encrypt\<close>: a
  cryptor over the plaintext at counter offset 0 and one \<^verbatim>\<open>Read\<close> into a buffer as long
  as the plaintext. \<open>decryptSeek\<close>: a cryptor over the whole encrypted object,
  \<^verbatim>\<open>Seek(s, SeekStart)\<close>, then one \<^verbatim>\<open>Read\<close> into a buffer of \<open>n\<close> bytes.
  \<open>decryptSlice\<close>: a cryptor over the encrypted object from byte \<open>s\<close> on, bound with
  \<^verbatim>\<open>counterOffset = s\<close> and no seeker, then one \<^verbatim>\<open>Read\<close>. The results keep what the
  calls return (buffer, \<^verbatim>\<open>n\<close>, error) and the cryptor and the source after the run.
\<close>

definition plainMetadata :: "byte list \<Rightarrow> byte list \<Rightarrow> EncryptMetadata" where
  "plainMetadata K I = \<lparr>Algorithm = CipherAES256CTR, Key = [], KeyPlainText = K, IV = I\<rparr>"

definition loaded :: "(byte list \<Rightarrow> blockFn) \<Rightarrow> byte list \<Rightarrow> byte list \<Rightarrow> 's AES256CTR" where
  "loaded aes K I =
    snd (LoadMetadata aes (Inl (Err ''no master key'')) NewAES256CTR (Some (plainMetadata K I)))"

definition openCryptor ::
  "(byte list \<Rightarrow> blockFn) \<Rightarrow> byte list \<Rightarrow> byte list \<Rightarrow> 's readFn option \<Rightarrow> 's seekFn option
    \<Rightarrow> int \<Rightarrow> int \<Rightarrow> error + 's AES256CTR" where
  "openCryptor aes K I rd sk sz co =
    (case LoadMetadata aes (Inl (Err ''no master key'')) NewAES256CTR (Some (plainMetadata K I)) of
       (Some err, e) \<Rightarrow> Inl err
     | (None, e) \<Rightarrow>
         (case SetSource aes e rd sk sz co of
            (Some err, e') \<Rightarrow> Inl err
          | (None, e') \<Rightarrow> Inr e'))"

definition encrypt ::
  "(byte list \<Rightarrow> blockFn) \<Rightarrow> byte list \<Rightarrow> byte list \<Rightarrow> byte list
    \<Rightarrow> error + (byte list \<times> nat \<times> error option) \<times> memSource AES256CTR \<times> memSource" where
  "encrypt aes K I P =
    (case openCryptor aes K I (Some memRead) (Some memSeek) (int (length P)) 0 of
       Inl err \<Rightarrow> Inl err
     | Inr e \<Rightarrow> Inr (Read e \<lparr>content = P, offset = 0\<rparr> (replicate (length P) 0)))"

definition decryptSeek ::
  "(byte list \<Rightarrow> blockFn) \<Rightarrow> byte list \<Rightarrow> byte list \<Rightarrow> byte list \<Rightarrow> nat \<Rightarrow> nat
    \<Rightarrow> error + int \<times> (byte list \<times> nat \<times> error option) \<times> memSource AES256CTR \<times> memSource" where
  "decryptSeek aes K I C s n =
    (case openCryptor aes K I (Some memRead) (Some memSeek) (int (length C)) 0 of
       Inl err \<Rightarrow> Inl err
     | Inr e \<Rightarrow>
         (case Seek aes e \<lparr>content = C, offset = 0\<rparr> (int s) SeekStart of
            ((r, Some err), e1, w1) \<Rightarrow> Inl err
          | ((r, None), e1, w1) \<Rightarrow> Inr (r, Read e1 w1 (replicate n 0))))"

definition decryptSlice ::
  "(byte list \<Rightarrow> blockFn) \<Rightarrow> byte list \<Rightarrow> byte list \<Rightarrow> byte list \<Rightarrow> nat \<Rightarrow> nat
    \<Rightarrow> error + (byte list \<times> nat \<times> error option) \<times> memSource AES256CTR \<times> memSource" where
  "decryptSlice aes K I C s n =
    (case openCryptor aes K I (Some memRead) None (- 1) (int s) of
       Inl err \<Rightarrow> Inl err
     | Inr e \<Rightarrow> Inr (Read e \<lparr>content = drop s C, offset = 0\<rparr> (replicate n 0)))"

text \<open>
  \<open>alignedAt aes K iv e zs\<close>: the cipher stream of the cryptor \<open>e\<close> stands at the
  absolute byte offset \<^verbatim>\<open>counterOffset + pos\<close>: whatever bytes \<open>zs\<close> it is given next, it
  combines them with the key stream from that offset on.
\<close>

definition alignedAt ::
  "(byte list \<Rightarrow> blockFn) \<Rightarrow> byte list \<Rightarrow> byte list \<Rightarrow> 's AES256CTR \<Rightarrow> byte list \<Rightarrow> bool" where
  "alignedAt aes K iv e zs =
    (case stream e of
       None \<Rightarrow> False
     | Some st \<Rightarrow>
         fst (XORKeyStream st zs) = ctrXor aes K iv (nat (counterOffset e + pos e)) zs)"

text \<open>
  Concrete runs need some block function; \<open>toyCipher\<close> stands in for AES there (the
  theorems hold for every block function). \<open>brokenRead\<close> is a source whose
  \<^verbatim>\<open>Read\<close> delivers its pending bytes together with a non-EOF error, as a network body
  that breaks off does; \<open>eofRead\<close> delivers its last bytes together with \<^verbatim>\<open>io.EOF\<close>,
  which \<^verbatim>\<open>io.Reader\<close> permits.
\<close>

definition toyCipher :: "byte list \<Rightarrow> blockFn" where
  "toyCipher k c = map2 (\<lambda>x y. x + y + 1) c (take 16 k)"

definition brokenRead :: "byte list readFn" where
  "brokenRead w p =
    (let n = min (length p) (length w)
     in ((take n w @ drop n p, n, Some (Err ''connection reset by peer'')), drop n w))"

definition eofRead :: "byte list readFn" where
  "eofRead w p =
    (let n = min (length p) (length w)
     in ((take n w @ drop n p, n, if n = length w then Some EOF else None), drop n w))"

definition brokenCryptor :: "byte list AES256CTR" where
  "brokenCryptor =
    snd (SetSource toyCipher (loaded toyCipher (replicate 32 1) (replicate 16 0))
           (Some brokenRead) None (- 1) 0)"

definition eofCryptor :: "byte list AES256CTR" where
  "eofCryptor =
    snd (SetSource toyCipher (loaded toyCipher (replicate 32 1) (replicate 16 0))
           (Some eofRead) None (- 1) 0)"

definition seekableCryptor :: "memSource AES256CTR" where
  "seekableCryptor =
    \<lparr>src = Some memRead, seeker = Some memSeek, stream = None,
     metadata = Some (plainMetadata (replicate 32 1) (replicate 16 0)), counterOffset = 0,
     pos = 3, size = - 1, eof = False\<rparr>"

text \<open>
  The key stream as a function of the absolute byte position: byte \<open>q\<close> is byte
  \<open>q mod 16\<close> of the encryption of the counter \<open>c0\<close> incremented \<open>q div 16\<close> times.
  \<open>atPos b c0 q s\<close>: the stream \<open>s\<close> is about to produce key stream byte \<open>q\<close>.
\<close>

definition ksByte :: "blockFn \<Rightarrow> byte list \<Rightarrow> nat \<Rightarrow> byte" where
  "ksByte b c0 q = b ((ctrInc ^^ (q div 16)) c0) ! (q mod 16)"

definition atPos :: "blockFn \<Rightarrow> byte list \<Rightarrow> nat \<Rightarrow> ctrStream \<Rightarrow> bool" where
  "atPos b c0 q s =
    (block s = b \<and> ctr s = (ctrInc ^^ (q div 16)) c0 \<and> outUsed s = q mod 16)"

primrec xorFrom :: "blockFn \<Rightarrow> byte list \<Rightarrow> nat \<Rightarrow> byte list \<Rightarrow> byte list" where
  "xorFrom b c0 q [] = []"
| "xorFrom b c0 q (x # xs) = (x XOR ksByte b c0 q) # xorFrom b c0 (Suc q) xs"

section \<open>Subscribers and the event hub (package eventhub)\<close>

subsection \<open>The collaborators\<close>

text \<open>
  Modelled from the spec: \<^verbatim>\<open>ent.User\<close>, \<^verbatim>\<open>inventory.UserFromContext\<close> and
  \<^verbatim>\<open>inventory.IsAnonymousUser\<close> are not among the sources. A user has an id and is
  anonymous or authenticated; a context carries a user or none.
\<close>

record User =
  ID :: int
  Anonymous :: bool

record Context =
  ctxUser :: "User option"

definition UserFromContext :: "Context \<Rightarrow> User option" where
  "UserFromContext ctx = ctxUser ctx"

definition IsAnonymousUser :: "User \<Rightarrow> bool" where
  "IsAnonymousUser u = Anonymous u"

text \<open>
  Times are nanosecond counts; the zero \<^verbatim>\<open>time.Time\<close> is \<open>0\<close>. \<^verbatim>\<open>time.Now()\<close> is
  the argument \<open>now\<close> of the operations that read the clock.
\<close>

type_synonym Time = int

definition hour :: int where "hour = 3600 * 1000000000"
definition bufSize :: nat where "bufSize = 16"
definition userCacheTTL :: int where "userCacheTTL = 1 * hour"
definition offlineMaxAge :: int where "offlineMaxAge = 14 * 24 * hour"

text \<open>
  The durable store behind \<^verbatim>\<open>inventory.FsEventClient\<close>: the rows of the table, in
  insertion order, and whether the database fails the next calls. The JSON text of an
  event is represented by the event, and a subscriber's UUID by its id string.
\<close>

record FsEvent =
  UserFsevent :: int
  Subscriber :: string
  EventText :: Event

record FsEventStore =
  rows :: "FsEvent list"
  failing :: bool

definition fsCreate :: "FsEventStore \<Rightarrow> int \<Rightarrow> string \<Rightarrow> Event list \<Rightarrow> error option \<times> FsEventStore" where
  "fsCreate st uid' subscriberId events =
    (if failing st then (Some (Err ''database error''), st)
     else (None, st\<lparr>rows := rows st @
             map (\<lambda>ev. \<lparr>UserFsevent = uid', Subscriber = subscriberId, EventText = ev\<rparr>) events\<rparr>))"

definition fsDeleteBySubscriber :: "FsEventStore \<Rightarrow> string \<Rightarrow> error option \<times> FsEventStore" where
  "fsDeleteBySubscriber st subscriberId =
    (if failing st then (Some (Err ''database error''), st)
     else (None, st\<lparr>rows := filter (\<lambda>r. Subscriber r \<noteq> subscriberId) (rows st)\<rparr>))"

definition fsTakeBySubscriber ::
  "FsEventStore \<Rightarrow> string \<Rightarrow> int \<Rightarrow> (error + FsEvent list) \<times> FsEventStore" where
  "fsTakeBySubscriber st subscriberId userId =
    (if failing st then (Inl (Err ''database error''), st)
     else (Inr (filter (\<lambda>r. Subscriber r = subscriberId \<and> UserFsevent r = userId) (rows st)),
           st\<lparr>rows := filter (\<lambda>r. \<not> (Subscriber r = subscriberId \<and> UserFsevent r = userId))
                           (rows st)\<rparr>))"

subsection \<open>Subscriber\<close>

text \<open>
  The channel \<^verbatim>\<open>ch\<close> is its queue of undelivered events (capacity \<^verbatim>\<open>bufSize\<close>) and
  whether it is closed; \<^verbatim>\<open>timer\<close> tells whether a timer handle is held (not nil). The
  mutex is not modelled: every method runs to its end alone.
\<close>

record subscriber =
  sid :: string
  uid :: int
  ch :: "Event list"
  chClosed :: bool
  online :: bool
  offlineSince :: Time
  buffer :: "Event list"
  timer :: bool
  ownerCached :: "User option"
  cachedAt :: Time
  closed :: bool

definition newSubscriber :: "Context \<Rightarrow> string \<Rightarrow> Time \<Rightarrow> error + subscriber" where
  "newSubscriber ctx id' now =
    (case UserFromContext ctx of
       None \<Rightarrow> Inl (Err ''user not found'')
     | Some user \<Rightarrow>
         if IsAnonymousUser user then Inl (Err ''user not found'')
         else Inr \<lparr>sid = id', uid = ID user, ch = [], chClosed = False, online = True,
                   offlineSince = 0, buffer = [], timer = False, ownerCached = Some user,
                   cachedAt = now, closed = False\<rparr>)"

text \<open>\<^verbatim>\<open>Owner\<close>; \<open>users\<close> is \<^verbatim>\<open>userClient.GetLoginUserByID\<close>.\<close>

definition Owner :: "(int \<Rightarrow> error + User) \<Rightarrow> Time \<Rightarrow> subscriber \<Rightarrow> (error + User) \<times> subscriber" where
  "Owner users now s =
    (if now - cachedAt s > userCacheTTL \<or> ownerCached s = None
     then (case users (uid s) of
             Inl err \<Rightarrow> (Inl (Err ''failed to get login user''), s)
           | Inr user \<Rightarrow> (Inr user, s\<lparr>ownerCached := Some user, cachedAt := now\<rparr>))
     else (case ownerCached s of
             Some user \<Rightarrow> (Inr user, s)
           | None \<Rightarrow> (Inl (Err ''failed to get login user''), s)))"

definition publishLocked :: "subscriber \<Rightarrow> Event \<Rightarrow> subscriber" where
  "publishLocked s evt = s\<lparr>buffer := buffer s @ [evt], timer := True\<rparr>"

definition Publish :: "subscriber \<Rightarrow> Event \<Rightarrow> subscriber" where
  "Publish s evt = (if closed s then s else publishLocked s evt)"

text \<open>The non-blocking send \<^verbatim>\<open>select { case s.ch <- evt: default: }\<close> of each event.\<close>

definition trySend :: "Event list \<Rightarrow> Event \<Rightarrow> Event list" where
  "trySend q evt = (if length q < bufSize then q @ [evt] else q)"

text \<open>
  \<^verbatim>\<open>flushLocked\<close>. Offline, it reads \<^verbatim>\<open>s.ownerCached.ID\<close>: a nil owner cache is a nil
  pointer dereference. The error of \<^verbatim>\<open>Create\<close> is discarded.
\<close>

definition flushLocked :: "subscriber \<Rightarrow> FsEventStore \<Rightarrow> error + subscriber \<times> FsEventStore" where
  "flushLocked s st =
    (if length (buffer s) = 0 \<or> closed s then Inr (s, st)
     else if \<not> online s
     then (case ownerCached s of
             None \<Rightarrow> Inl (Panic ''nil pointer dereference'')
           | Some owner \<Rightarrow>
               Inr (s\<lparr>buffer := [], timer := False\<rparr>,
                    snd (fsCreate st (ID owner) (sid s) (buffer s))))
     else Inr (s\<lparr>ch := foldl trySend (ch s) (DebounceEvents (buffer s)), buffer := [],
                 timer := False\<rparr>, st))"

definition flush :: "subscriber \<Rightarrow> FsEventStore \<Rightarrow> error + subscriber \<times> FsEventStore" where
  "flush s st = flushLocked s st"

definition Stop :: "subscriber \<Rightarrow> FsEventStore \<Rightarrow> error + subscriber \<times> FsEventStore" where
  "Stop s st = flushLocked (if timer s then s\<lparr>timer := False\<rparr> else s) st"

definition setOnline :: "subscriber \<Rightarrow> FsEventStore \<Rightarrow> subscriber \<times> FsEventStore" where
  "setOnline s st =
    (if closed s then (s, st)
     else (let s1 = s\<lparr>online := True, ownerCached := None, offlineSince := 0\<rparr>
           in case fsTakeBySubscriber st (sid s1) (uid s1) of
                (Inl err, st1) \<Rightarrow> (s1, st1)
              | (Inr events, st1) \<Rightarrow>
                  (let s2 = s1\<lparr>buffer := buffer s1 @ map EventText events\<rparr>
                   in (if length (buffer s2) > 0 then s2\<lparr>timer := True\<rparr> else s2, st1))))"

definition setOffline :: "subscriber \<Rightarrow> FsEventStore \<Rightarrow> Time \<Rightarrow> error + subscriber \<times> FsEventStore" where
  "setOffline s st now =
    (if closed s then Inr (s, st)
     else flushLocked (s\<lparr>online := False, offlineSince := now, timer := False\<rparr>) st)"

definition closeSubscriber :: "subscriber \<Rightarrow> FsEventStore \<Rightarrow> subscriber \<times> FsEventStore" where
  "closeSubscriber s st =
    (if closed s then (s, st)
     else (s\<lparr>closed := True, timer := False, chClosed := True, buffer := []\<rparr>,
           snd (fsDeleteBySubscriber st (sid s))))"

definition isClosed :: "subscriber \<Rightarrow> bool" where
  "isClosed s = closed s"

definition shouldExpire :: "Time \<Rightarrow> subscriber \<Rightarrow> bool" where
  "shouldExpire now s =
    (\<not> online s \<and> \<not> (offlineSince s = 0) \<and> now - offlineSince s > offlineMaxAge)"

text \<open>The operations on one subscriber, for runs of several of them in a row.\<close>

datatype subscriberOp =
  OpPublish Event | OpFlush | OpSetOnline | OpSetOffline Time | OpStop | OpOwner Time

fun applyOp ::
  "(int \<Rightarrow> error + User) \<Rightarrow> subscriber \<times> FsEventStore \<Rightarrow> subscriberOp
    \<Rightarrow> error + subscriber \<times> FsEventStore" where
  "applyOp users (s, st) (OpPublish evt) = Inr (Publish s evt, st)"
| "applyOp users (s, st) OpFlush = flush s st"
| "applyOp users (s, st) OpSetOnline = Inr (setOnline s st)"
| "applyOp users (s, st) (OpSetOffline now) = setOffline s st now"
| "applyOp users (s, st) OpStop = Stop s st"
| "applyOp users (s, st) (OpOwner now) = Inr (snd (Owner users now s), st)"

fun applyOps ::
  "(int \<Rightarrow> error + User) \<Rightarrow> subscriber \<times> FsEventStore \<Rightarrow> subscriberOp list
    \<Rightarrow> error + subscriber \<times> FsEventStore" where
  "applyOps users c [] = Inr c"
| "applyOps users c (x # xs) =
    (case applyOp users c x of Inl err \<Rightarrow> Inl err | Inr c' \<Rightarrow> applyOps users c' xs)"

subsection \<open>EventHub\<close>

text \<open>
  The registry \<^verbatim>\<open>map[int]map[string]*subscriber\<close> is a finite map of finite maps. A
  method call on a registered subscriber is the update of its entry. The read-write lock
  is not modelled: every method runs to its end alone.
\<close>

record eventHub =
  topics :: "(int, (string, subscriber) fmap) fmap"
  hubClosed :: bool

definition ErrEventHubClosed :: error where
  "ErrEventHubClosed = Err ''event hub is closed''"

definition lookupSub :: "eventHub \<Rightarrow> int \<Rightarrow> string \<Rightarrow> subscriber option" where
  "lookupSub h topic id' =
    (case fmlookup (topics h) topic of None \<Rightarrow> None | Some subs \<Rightarrow> fmlookup subs id')"

text \<open>
  \<^verbatim>\<open>Subscribe\<close> returns the flag \<^verbatim>\<open>resumed\<close> and the error; the channel it returns is
  the \<^verbatim>\<open>ch\<close> of the subscriber registered under (topic, id). \<open>createIn\<close> is the tail of
  the method from \<^verbatim>\<open>newSubscriber\<close> on, with the topic's map as it is by then.
\<close>

definition createIn ::
  "eventHub \<Rightarrow> FsEventStore \<Rightarrow> Context \<Rightarrow> int \<Rightarrow> string \<Rightarrow> Time \<Rightarrow> (string, subscriber) fmap
    \<Rightarrow> (bool \<times> error option) \<times> eventHub \<times> FsEventStore" where
  "createIn h st ctx topic id' now subs =
    (case newSubscriber ctx id' now of
       Inl err \<Rightarrow> ((False, Some err), h\<lparr>topics := fmupd topic subs (topics h)\<rparr>, st)
     | Inr sub \<Rightarrow>
         ((False, None), h\<lparr>topics := fmupd topic (fmupd id' sub subs) (topics h)\<rparr>, st))"

definition Subscribe ::
  "eventHub \<Rightarrow> FsEventStore \<Rightarrow> Context \<Rightarrow> int \<Rightarrow> string \<Rightarrow> Time
    \<Rightarrow> (bool \<times> error option) \<times> eventHub \<times> FsEventStore" where
  "Subscribe h st ctx topic id' now =
    (if hubClosed h then ((False, Some ErrEventHubClosed), h, st)
     else (let subs = (case fmlookup (topics h) topic of None \<Rightarrow> fmempty | Some subs \<Rightarrow> subs)
           in case fmlookup subs id' of
                Some existingSub \<Rightarrow>
                  if isClosed existingSub
                  then createIn h st ctx topic id' now (fmdrop id' subs)
                  else (case setOnline existingSub st of
                          (s', st') \<Rightarrow>
                            ((True, None),
                             h\<lparr>topics := fmupd topic (fmupd id' s' subs) (topics h)\<rparr>, st'))
              | None \<Rightarrow> createIn h st ctx topic id' now subs))"

definition Unsubscribe ::
  "eventHub \<Rightarrow> FsEventStore \<Rightarrow> int \<Rightarrow> string \<Rightarrow> Time \<Rightarrow> error + eventHub \<times> FsEventStore" where
  "Unsubscribe h st topic id' now =
    (if hubClosed h then Inr (h, st)
     else (case fmlookup (topics h) topic of
             None \<Rightarrow> Inr (h, st)
           | Some subs \<Rightarrow>
              (case fmlookup subs id' of
                 None \<Rightarrow> Inr (h, st)
               | Some sub \<Rightarrow>
                  (case Stop sub st of
                     Inl p \<Rightarrow> Inl p
                   | Inr (s1, st1) \<Rightarrow>
                      (case setOffline s1 st1 now of
                         Inl p \<Rightarrow> Inl p
                       | Inr (s2, st2) \<Rightarrow>
                           Inr (h\<lparr>topics := fmupd topic (fmupd id' s2 subs) (topics h)\<rparr>,
                                st2))))))"

text \<open>
  \<^verbatim>\<open>cleanupExpiredSubscribers\<close>. Go visits every entry of a map once, in no fixed
  order, and allows deleting the entry under the cursor, so the two nested loops keep
  in every topic the subscribers for which \<^verbatim>\<open>shouldExpire\<close> is false and then drop the
  topics left empty. \<^verbatim>\<open>close\<close> runs on each expired subscriber: the third component
  of the result holds these subscribers after their \<^verbatim>\<open>close\<close>, and the store loses the
  rows of each of them that was not closed before.
\<close>

definition expiredIn :: "Time \<Rightarrow> (string, subscriber) fmap \<Rightarrow> string \<Rightarrow> bool" where
  "expiredIn now subs id' =
    (case fmlookup subs id' of None \<Rightarrow> False | Some s \<Rightarrow> shouldExpire now s)"

definition sweepTopic :: "Time \<Rightarrow> (string, subscriber) fmap \<Rightarrow> (string, subscriber) fmap" where
  "sweepTopic now subs = fmfilter (\<lambda>id'. \<not> expiredIn now subs id') subs"

definition closedOf ::
  "Time \<Rightarrow> FsEventStore \<Rightarrow> (string, subscriber) fmap \<Rightarrow> (string, subscriber) fmap" where
  "closedOf now st subs =
    fmmap (\<lambda>s. fst (closeSubscriber s st)) (fmfilter (expiredIn now subs) subs)"

definition sweptRow :: "Time \<Rightarrow> eventHub \<Rightarrow> FsEvent \<Rightarrow> bool" where
  "sweptRow now h r =
    fBex (fmran (topics h))
      (\<lambda>subs. fBex (fmran subs)
         (\<lambda>s. shouldExpire now s \<and> \<not> closed s \<and> sid s = Subscriber r))"

definition cleanupExpiredSubscribers ::
  "Time \<Rightarrow> eventHub \<Rightarrow> FsEventStore
    \<Rightarrow> eventHub \<times> FsEventStore \<times> (int, (string, subscriber) fmap) fmap" where
  "cleanupExpiredSubscribers now h st =
    (if hubClosed h then (h, st, fmempty)
     else (let swept = fmmap (sweepTopic now) (topics h)
           in (h\<lparr>topics := fmfilter (\<lambda>topic. fmlookup swept topic \<noteq> Some fmempty) swept\<rparr>,
               (if failing st then st
                else st\<lparr>rows := filter (\<lambda>r. \<not> sweptRow now h r) (rows st)\<rparr>),
               fmmap (closedOf now st) (topics h))))"

text \<open>Concrete users, subscribers and hubs for the runs below.\<close>

definition alice :: User where
  "alice = \<lparr>ID = 7, Anonymous = False\<rparr>"

definition emptyStore :: FsEventStore where
  "emptyStore = \<lparr>rows = [], failing = False\<rparr>"

definition pendingEvent :: Event where
  "pendingEvent = mkEvent EventTypeModify ''f9'' ''/h'' ''''"

definition freshSubscriber :: subscriber where
  "freshSubscriber =
    \<lparr>sid = ''c1'', uid = 7, ch = [], chClosed = False, online = True, offlineSince = 0,
     buffer = [], timer = False, ownerCached = Some alice, cachedAt = 100, closed = False\<rparr>"

text \<open>An online subscriber with one buffered event whose client has stopped reading:
  the channel holds \<^verbatim>\<open>bufSize\<close> undelivered events.\<close>

definition busySubscriber :: subscriber where
  "busySubscriber =
    freshSubscriber\<lparr>ch := replicate 16 (mkEvent EventTypeModify ''f0'' ''/g'' ''''),
                     buffer := [pendingEvent], timer := True\<rparr>"

definition hubWith :: "subscriber \<Rightarrow> eventHub" where
  "hubWith s = \<lparr>topics = fmupd 42 (fmupd ''c1'' s fmempty) fmempty, hubClosed = False\<rparr>"

definition offlineSubscriber :: subscriber where
  "offlineSubscriber = freshSubscriber\<lparr>online := False, offlineSince := 200\<rparr>"

definition noUser :: Context where
  "noUser = \<lparr>ctxUser = None\<rparr>"

definition unauthenticated :: "Context \<Rightarrow> bool" where
  "unauthenticated ctx =
    (case UserFromContext ctx of None \<Rightarrow> True | Some user \<Rightarrow> IsAnonymousUser user)"

definition expiredSubscriber :: subscriber where
  "expiredSubscriber = freshSubscriber\<lparr>online := False, offlineSince := 200\<rparr>"

definition day :: int where "day = 24 * hour"

section \<open>Properties\<close>

subsection \<open>Event algebra\<close>

lemma EventType_distinct:
  "EventTypeCreate \<noteq> EventTypeModify" "EventTypeCreate \<noteq> EventTypeRename"
  "EventTypeCreate \<noteq> EventTypeDelete" "EventTypeModify \<noteq> EventTypeRename"
  "EventTypeModify \<noteq> EventTypeDelete" "EventTypeRename \<noteq> EventTypeDelete"
  "EventTypeModify \<noteq> EventTypeCreate" "EventTypeRename \<noteq> EventTypeCreate"
  "EventTypeDelete \<noteq> EventTypeCreate" "EventTypeRename \<noteq> EventTypeModify"
  "EventTypeDelete \<noteq> EventTypeModify" "EventTypeDelete \<noteq> EventTypeRename"
  by (simp_all add: EventTypeCreate_def EventTypeModify_def EventTypeRename_def EventTypeDelete_def)

lemma removeFromOrder_remove1: "removeFromOrder f xs = remove1 f xs"
  by (induction xs) auto

lemma emitEvent_elem:
  "e \<in> set (emitEvent st f) \<Longrightarrow> FileID e = f \<and> normalEvent e"
  by (auto simp: emitEvent_def normalEvent_def EventType_distinct split: option.splits if_splits)

lemma buildResult_elem:
  "e \<in> set (buildResult st ord) \<Longrightarrow> FileID e \<in> set ord \<and> normalEvent e"
  by (induction ord) (auto dest: emitEvent_elem)

lemma emitEvent_length: "length (emitEvent st f) \<le> 1"
  by (simp add: emitEvent_def split: option.splits)

lemma emitEvent_distinct: "distinct (map FileID (emitEvent st f))"
  by (simp add: emitEvent_def split: option.splits)

lemma buildResult_distinct:
  "distinct ord \<Longrightarrow> distinct (map FileID (buildResult st ord))"
proof (induction ord)
  case Nil
  then show ?case by simp
next
  case (Cons f rest)
  have "\<And>a b. a \<in> set (emitEvent st f) \<Longrightarrow> b \<in> set (buildResult st rest) \<Longrightarrow> FileID a \<noteq> FileID b"
    using Cons.prems by (auto dest!: emitEvent_elem buildResult_elem)
  with Cons show ?case
    by (auto simp: emitEvent_distinct)
qed

lemma debounceStep_orderInv: "orderInv acc \<Longrightarrow> orderInv (debounceStep acc e)"
  by (cases acc)
     (auto simp: orderInv_def debounceStep_def removeFromOrder_remove1
           split: option.splits if_splits)

lemma foldl_orderInv: "orderInv acc \<Longrightarrow> orderInv (foldl debounceStep acc xs)"
  by (induction xs arbitrary: acc) (simp_all add: debounceStep_orderInv)

lemma runEvents_orderInv: "orderInv (runEvents xs)"
  unfolding runEvents_def by (rule foldl_orderInv) (simp add: orderInv_def)

lemma DebounceEvents_distinct: "distinct (map FileID (DebounceEvents xs))"
  using runEvents_orderInv [of xs]
  by (auto simp: DebounceEvents_def orderInv_def buildResult_distinct split: prod.splits)

lemma DebounceEvents_normal: "e \<in> set (DebounceEvents xs) \<Longrightarrow> normalEvent e"
  by (auto simp: DebounceEvents_def split: prod.splits if_splits dest: buildResult_elem)

lemma foldl_putInit_other:
  "f \<notin> FileID ` set ys \<Longrightarrow> foldl putInit st ys f = st f"
  by (induction ys arbitrary: st) (auto simp: putInit_def)

lemma foldl_putInit_elem:
  "distinct (map FileID ys) \<Longrightarrow> e \<in> set ys \<Longrightarrow> foldl putInit st ys (FileID e) = Some (initState e)"
proof (induction ys arbitrary: st)
  case Nil
  then show ?case by simp
next
  case (Cons y ys)
  show ?case
  proof (cases "e = y")
    case True
    then have "FileID e \<notin> FileID ` set ys" using Cons.prems by auto
    then have "foldl putInit (putInit st y) ys (FileID e) = putInit st y (FileID e)"
      by (rule foldl_putInit_other)
    moreover have "putInit st y (FileID y) = Some (initState y)"
      by (simp add: putInit_def)
    ultimately show ?thesis using True by simp
  next
    case False
    then show ?thesis using Cons by auto
  qed
qed

lemma foldl_debounceStep_fresh:
  "distinct (map FileID ys) \<Longrightarrow> \<forall>e\<in>set ys. st (FileID e) = None \<Longrightarrow>
   foldl debounceStep (st, ord) ys = (foldl putInit st ys, ord @ map FileID ys)"
proof (induction ys arbitrary: st ord)
  case Nil
  then show ?case by simp
next
  case (Cons y ys)
  have step: "debounceStep (st, ord) y = (putInit st y, ord @ [FileID y])"
    using Cons.prems by (simp add: debounceStep_def putInit_def initState_def)
  have "\<forall>e\<in>set ys. putInit st y (FileID e) = None"
  proof
    fix e assume e: "e \<in> set ys"
    have "FileID y \<notin> FileID ` set ys" using Cons.prems(1) by simp
    with e have "FileID e \<noteq> FileID y" by (metis imageI)
    moreover have "st (FileID e) = None" using e Cons.prems(2) by simp
    ultimately show "putInit st y (FileID e) = None" by (simp add: putInit_def)
  qed
  with Cons show ?case by (simp add: step)
qed

lemma emitEvent_init:
  "normalEvent y \<Longrightarrow> st (FileID y) = Some (initState y) \<Longrightarrow> emitEvent st (FileID y) = [y]"
  by (cases y) (auto simp: emitEvent_def normalEvent_def initState_def EventType_distinct split: if_splits)

lemma buildResult_init:
  "\<forall>e\<in>set ys. normalEvent e \<and> st (FileID e) = Some (initState e) \<Longrightarrow>
   buildResult st (map FileID ys) = ys"
  by (induction ys) (simp_all add: emitEvent_init)

lemma DebounceEvents_fixed:
  assumes d: "distinct (map FileID ys)" and n: "\<forall>e\<in>set ys. normalEvent e"
  shows "DebounceEvents ys = ys"
proof (cases "ys = []")
  case True
  then show ?thesis by (simp add: DebounceEvents_def)
next
  case False
  have run: "runEvents ys = (foldl putInit Map.empty ys, map FileID ys)"
    unfolding runEvents_def using foldl_debounceStep_fresh [OF d, of Map.empty "[]"] by simp
  have "buildResult (foldl putInit Map.empty ys) (map FileID ys) = ys"
    by (rule buildResult_init) (simp add: n foldl_putInit_elem [OF d])
  with False run show ?thesis by (simp add: DebounceEvents_def)
qed

text \<open>
  Claim C2. The event algebra is idempotent: for every finite sequence \<open>xs\<close> of events,
  applying \<open>DebounceEvents\<close> to its own output gives that output again.
\<close>

theorem DebounceEvents_idempotent:
  "DebounceEvents (DebounceEvents xs) = DebounceEvents xs"
  by (rule DebounceEvents_fixed) (simp_all add: DebounceEvents_distinct DebounceEvents_normal)

lemma runEvents_snoc: "runEvents (xs @ [e]) = debounceStep (runEvents xs) e"
  by (simp add: runEvents_def)

lemma introIndex_snoc:
  "introIndex f (xs @ [e]) =
    (if FileID e = f \<and> fst (runEvents xs) f = None then length xs else introIndex f xs)"
proof -
  let ?P = "\<lambda>ys i. FileID (ys ! i) = f \<and> fst (runEvents (take i ys)) f = None"
  have "filter (?P (xs @ [e])) [0..<length xs] = filter (?P xs) [0..<length xs]"
    by (rule filter_cong) (auto simp: nth_append)
  then show ?thesis
    by (simp add: introIndex_def)
qed

lemma debounceStep_order_new:
  "st (FileID e) = None \<Longrightarrow> snd (debounceStep (st, ord) e) = ord @ [FileID e]"
  by (simp add: debounceStep_def)

lemma debounceStep_order_old:
  "st (FileID e) \<noteq> None \<Longrightarrow>
   snd (debounceStep (st, ord) e) = ord \<or> snd (debounceStep (st, ord) e) = remove1 (FileID e) ord"
  by (auto simp: debounceStep_def removeFromOrder_remove1 split: option.splits)

lemma sorted_wrt_remove1: "sorted_wrt R xs \<Longrightarrow> sorted_wrt R (remove1 x xs)"
  by (induction xs) (auto dest: notin_set_remove1)

lemma introInv_all: "introInv xs"
proof (induction xs rule: rev_induct)
  case Nil
  then show ?case by (simp add: introInv_def runEvents_def)
next
  case (snoc e xs)
  obtain st ord where run: "runEvents xs = (st, ord)" by (cases "runEvents xs")
  have inv: "distinct ord" "set ord \<subseteq> dom st"
    using runEvents_orderInv [of xs] run by (simp_all add: orderInv_def)
  have srt: "sorted_wrt (\<lambda>f g. introIndex f xs < introIndex g xs) ord"
    and bnd: "\<forall>f\<in>set ord. introIndex f xs < length xs"
    using snoc run by (simp_all add: introInv_def list_all_iff)
  show ?case
  proof (cases "st (FileID e)")
    case None
    then have notin: "FileID e \<notin> set ord" using inv by auto
    have ord': "snd (runEvents (xs @ [e])) = ord @ [FileID e]"
      by (simp add: runEvents_snoc run debounceStep_order_new None)
    have same: "\<And>f. f \<in> set ord \<Longrightarrow> introIndex f (xs @ [e]) = introIndex f xs"
      using notin by (auto simp: introIndex_snoc)
    have new: "introIndex (FileID e) (xs @ [e]) = length xs"
      by (simp add: introIndex_snoc run None)
    have "sorted_wrt (\<lambda>f g. introIndex f (xs @ [e]) < introIndex g (xs @ [e])) ord"
      using srt same by (simp add: sorted_wrt_iff_nth_less)
    then show ?thesis
      using bnd same new by (auto simp: introInv_def ord' sorted_wrt_append list_all_iff less_Suc_eq)
  next
    case (Some s)
    have "fst (runEvents xs) (FileID e) \<noteq> None" using Some run by simp
    then have same: "\<And>f. introIndex f (xs @ [e]) = introIndex f xs"
      by (auto simp: introIndex_snoc)
    have "snd (runEvents (xs @ [e])) = ord \<or> snd (runEvents (xs @ [e])) = remove1 (FileID e) ord"
      using debounceStep_order_old [of st e ord] Some by (simp add: runEvents_snoc run)
    then show ?thesis
      using srt bnd
      by (auto simp: introInv_def same list_all_iff sorted_wrt_remove1 less_Suc_eq dest: notin_set_remove1)
  qed
qed

lemma buildResult_sorted:
  "sorted_wrt (\<lambda>f g. idx f < (idx g :: nat)) ord \<Longrightarrow>
   sorted_wrt (\<lambda>a b. idx (FileID a) < idx (FileID b)) (buildResult st ord)"
proof (induction ord)
  case Nil
  then show ?case by simp
next
  case (Cons f rest)
  have one: "sorted_wrt (\<lambda>a b. idx (FileID a) < idx (FileID b)) (emitEvent st f)"
    by (simp add: emitEvent_def split: option.splits)
  have "\<And>a b. a \<in> set (emitEvent st f) \<Longrightarrow> b \<in> set (buildResult st rest) \<Longrightarrow>
      idx (FileID a) < idx (FileID b)"
    using Cons.prems by (auto dest!: emitEvent_elem buildResult_elem)
  with Cons one show ?case by (simp add: sorted_wrt_append)
qed

lemma debounceStep_other:
  "g \<noteq> FileID e \<Longrightarrow> fst (debounceStep (st, ord) e) g = st g"
  by (simp add: debounceStep_def split: option.splits)

lemma debounceStep_fresh_entry:
  "st (FileID e) = None \<Longrightarrow> fst (debounceStep (st, ord) e) (FileID e) \<noteq> None"
  by (simp add: debounceStep_def)

lemma runEvents_unseen:
  "f \<notin> FileID ` set xs \<Longrightarrow> fst (runEvents xs) f = None"
proof (induction xs rule: rev_induct)
  case Nil
  then show ?case by (simp add: runEvents_def)
next
  case (snoc e xs)
  then have "f \<noteq> FileID e" "fst (runEvents xs) f = None" by auto
  then show ?case
    using debounceStep_other [of f e "fst (runEvents xs)" "snd (runEvents xs)"]
    by (simp add: runEvents_snoc)
qed

lemma neverDropped_present:
  assumes nd: "neverDropped f xs" and i: "i \<le> length xs" and seen: "f \<in> FileID ` set (take i xs)"
  shows "fst (runEvents (take i xs)) f \<noteq> None"
  using i seen
proof (induction i)
  case 0
  then show ?case by simp
next
  case (Suc i)
  then have lt: "i < length xs" by simp
  then have tk: "take (Suc i) xs = take i xs @ [xs ! i]" by (simp add: take_Suc_conv_app_nth)
  have keep: "fst (runEvents (take i xs)) f = None \<or> fst (runEvents (take (Suc i) xs)) f \<noteq> None"
    using nd lt by (simp add: neverDropped_def list_all_iff)
  show ?case
  proof (cases "fst (runEvents (take i xs)) f = None")
    case False
    with keep show ?thesis by simp
  next
    case True
    then have "f \<notin> FileID ` set (take i xs)" using Suc.IH lt by auto
    with Suc.prems(2) have f: "f = FileID (xs ! i)" by (auto simp: tk)
    show ?thesis
      using True debounceStep_fresh_entry [of "fst (runEvents (take i xs))" "xs ! i" "snd (runEvents (take i xs))"]
      by (simp add: tk runEvents_snoc f)
  qed
qed

lemma firstIndex_props:
  assumes "f \<in> FileID ` set xs"
  shows "firstIndex f xs < length xs" "FileID (xs ! firstIndex f xs) = f"
    "f \<notin> FileID ` set (take (firstIndex f xs) xs)"
proof -
  let ?P = "\<lambda>e. FileID e \<noteq> f"
  have ex: "\<exists>e\<in>set xs. \<not> ?P e" using assms by auto
  show lt: "firstIndex f xs < length xs"
  proof (rule ccontr)
    assume "\<not> firstIndex f xs < length xs"
    then have "length (takeWhile ?P xs) = length xs"
      using length_takeWhile_le [of ?P xs] by (simp add: firstIndex_def)
    then have "takeWhile ?P xs = xs"
      using takeWhile_eq_take [of ?P xs] by simp
    then show False using ex by simp
  qed
  show "FileID (xs ! firstIndex f xs) = f"
    using nth_length_takeWhile [of ?P xs] lt unfolding firstIndex_def by simp
  have "take (firstIndex f xs) xs = takeWhile ?P xs"
    unfolding firstIndex_def by (rule takeWhile_eq_take [symmetric])
  then show "f \<notin> FileID ` set (take (firstIndex f xs) xs)"
    by (auto dest: set_takeWhileD)
qed

lemma filter_eq_upt: "k < n \<Longrightarrow> filter (\<lambda>i. i = k) [0..<n] = [k]"
  by (induction n) (auto simp: less_Suc_eq)

lemma introIndex_neverDropped:
  assumes nd: "neverDropped f xs" and seen: "f \<in> FileID ` set xs"
  shows "introIndex f xs = firstIndex f xs"
proof -
  let ?k = "firstIndex f xs"
  let ?Q = "\<lambda>i. FileID (xs ! i) = f \<and> fst (runEvents (take i xs)) f = None"
  note fp = firstIndex_props [OF seen]
  have "\<And>i. i < length xs \<Longrightarrow> ?Q i = (i = ?k)"
  proof -
    fix i assume i: "i < length xs"
    show "?Q i = (i = ?k)"
    proof
      assume q: "?Q i"
      then have "f \<notin> FileID ` set (take i xs)"
        using neverDropped_present [OF nd, of i] i by auto
      have "\<not> ?k < i"
      proof
        assume "?k < i"
        then have "xs ! ?k \<in> set (take i xs)" using i by (auto simp: in_set_conv_nth)
        with \<open>f \<notin> FileID ` set (take i xs)\<close> fp(2) show False by (metis imageI)
      qed
      moreover have "\<not> i < ?k"
      proof
        assume "i < ?k"
        then have "xs ! i \<in> set (take ?k xs)" using fp(1) by (auto simp: in_set_conv_nth)
        with q fp(3) show False by (metis imageI)
      qed
      ultimately show "i = ?k" by simp
    next
      assume "i = ?k"
      then show "?Q i" using fp(2,3) by (simp add: runEvents_unseen)
    qed
  qed
  then have "filter ?Q [0..<length xs] = filter (\<lambda>i. i = ?k) [0..<length xs]"
    by (intro filter_cong) auto
  also have "\<dots> = [?k]"
    using fp(1) by (rule filter_eq_upt)
  finally show ?thesis by (simp add: introIndex_def)
qed

text \<open>
  Claim C6, as amended. The events of \<open>DebounceEvents xs\<close> appear in the order in which
  the accumulator entries they come from were introduced: by the index of the last event
  for their file id that found no entry for it. For a file id whose entry is never
  dropped that index is its first appearance in \<open>xs\<close>; an entry dropped by the
  round-trip or the ephemeral rule and introduced again by a later event takes the
  position of that later event.
\<close>

theorem DebounceEvents_introduction_order:
  "inIntroductionOrder xs (DebounceEvents xs)
   \<and> (neverDropped f xs \<and> f \<in> set (map FileID xs) \<longrightarrow> introIndex f xs = firstIndex f xs)"
proof (cases "runEvents xs")
  case (Pair st ord)
  have "sorted_wrt (\<lambda>f g. introIndex f xs < introIndex g xs) ord"
    using introInv_all [of xs] Pair by (simp add: introInv_def)
  then have "sorted_wrt (\<lambda>a b. introIndex (FileID a) xs < introIndex (FileID b) xs)
      (buildResult st ord)"
    by (rule buildResult_sorted)
  then have "inIntroductionOrder xs (DebounceEvents xs)"
    by (simp add: inIntroductionOrder_def DebounceEvents_def Pair)
  then show ?thesis using introIndex_neverDropped [of f xs] by simp
qed

theorem DebounceEvents_introduction_order_witness:
  "neverDropped ''f2'' reintroduced \<and> ''f2'' \<in> set (map FileID reintroduced)
   \<and> inIntroductionOrder reintroduced (DebounceEvents reintroduced)
   \<and> introIndex ''f2'' reintroduced = firstIndex ''f2'' reintroduced"
proof -
  have h: "neverDropped ''f2'' reintroduced" "''f2'' \<in> set (map FileID reintroduced)"
    by code_simp+
  show ?thesis
    using h DebounceEvents_introduction_order [of reintroduced "''f2''"] by blast
qed

text \<open>
  The claim as written (first-appearance order also after a drop) fails: file \<open>f1\<close>
  appears first, is dropped by Create + Delete and created again after \<open>f2\<close>; the
  output lists \<open>f2\<close> before \<open>f1\<close>.
\<close>

theorem DebounceEvents_first_appearance_counterexample:
  "\<not> inFirstAppearanceOrder reintroduced (DebounceEvents reintroduced)"
  by (simp add: inFirstAppearanceOrder_def reintroduced_def mkEvent_def DebounceEvents_def runEvents_def
      debounceStep_def emitEvent_def firstIndex_def
      EventTypeCreate_def EventTypeModify_def EventTypeRename_def EventTypeDelete_def)

subsection \<open>Counter arithmetic\<close>


lemma nat_and_255: "(n::nat) AND 255 = n mod 256"
proof -
  have "n AND mask 8 = n mod 2 ^ 8"
    by (simp add: take_bit_eq_mod flip: take_bit_eq_mask)
  then show ?thesis by (simp add: mask_eq_exp_minus_1)
qed

lemma int_and_255: "(k::int) AND 255 = k mod 256"
proof -
  have "k AND mask 8 = k mod 2 ^ 8"
    by (simp add: take_bit_eq_mod flip: take_bit_eq_mask)
  then show ?thesis by (simp add: mask_eq_exp_minus_1)
qed

lemma nat_drop_bit_8: "drop_bit 8 (n::nat) = n div 256"
  by (simp add: drop_bit_eq_div)

lemma int_drop_bit_8: "drop_bit 8 (k::int) = k div 256"
  by (simp add: drop_bit_eq_div)

lemma unat_byte_mod: "unat (of_nat (n mod 256) :: byte) = n mod 256"
  by (simp add: unat_of_nat)

lemma be_val_bound: "be_val bs < 256 ^ length bs"
proof (induction bs)
  case Nil
  then show ?case by simp
next
  case (Cons b bs)
  have "unat b < 2 ^ LENGTH(8)" by (rule unsigned_less)
  then have "unat b \<le> 255" by simp
  then have "unat b * 256 ^ length bs \<le> 255 * 256 ^ length bs" by simp
  with Cons have "unat b * 256 ^ length bs + be_val bs < 255 * 256 ^ length bs + 256 ^ length bs"
    by linarith
  then show ?case by simp
qed

lemma be_val_update:
  "i < length bs \<Longrightarrow>
   be_val (bs[i := v]) + unat (bs ! i) * 256 ^ (length bs - Suc i)
     = be_val bs + unat v * 256 ^ (length bs - Suc i)"
proof (induction bs arbitrary: i)
  case Nil
  then show ?case by simp
next
  case (Cons b bs)
  then show ?case by (cases i) simp_all
qed

lemma carryLoop_length: "length (carryLoop j carry c) = length c"
  by (induction j carry c rule: carryLoop.induct) (simp_all add: Let_def)

lemma carryLoop_val:
  "j \<le> length c \<Longrightarrow>
   be_val (carryLoop j carry c) = (be_val c + carry * 256 ^ (length c - j)) mod 256 ^ length c"
proof (induction j carry c rule: carryLoop.induct)
  case (1 carry counter)
  then show ?case using be_val_bound [of counter] by simp
next
  case (2 j carry c)
  show ?case
  proof (cases "carry > 0")
    case False
    then show ?thesis using be_val_bound [of c] by simp
  next
    case True
    define sum where "sum = unat (c ! j) + carry"
    define c' where "c' = c[j := of_nat (sum mod 256) :: byte]"
    define W :: nat where "W = 256 ^ (length c - Suc j)"
    have j: "j < length c" using "2.prems" by simp
    then have pw: "(256::nat) ^ (length c - j) = 256 * W"
      by (simp add: W_def Suc_diff_Suc flip: power_Suc)
    have upd: "be_val c' + unat (c ! j) * W = be_val c + (sum mod 256) * W"
      unfolding c'_def W_def using be_val_update [OF j, of "of_nat (sum mod 256)"]
      by (simp add: unat_byte_mod)
    have "sum * W = (sum div 256) * (256 * W) + (sum mod 256) * W"
      by (metis div_mult_mod_eq distrib_right mult.assoc)
    then have eq: "be_val c' + (sum div 256) * (256 * W) = be_val c + carry * W"
      using upd by (simp add: sum_def distrib_right)
    have len: "length c' = length c" by (simp add: c'_def)
    have "be_val (carryLoop j (sum div 256) c')
        = (be_val c' + (sum div 256) * 256 ^ (length c' - j)) mod 256 ^ length c'"
      using "2.IH" [OF True, of sum] "2.prems"
      by (simp add: sum_def c'_def nat_and_255 nat_drop_bit_8)
    then have "be_val (carryLoop j (sum div 256) c') = (be_val c + carry * W) mod 256 ^ length c"
      by (simp only: len pw eq)
    moreover have "carryLoop (Suc j) carry c = carryLoop j (sum div 256) c'"
      using True by (simp add: Let_def nat_and_255 nat_drop_bit_8 sum_def c'_def)
    ultimately show ?thesis by (simp only: W_def)
  qed
qed

lemma be_val_inj: "length a = length b \<Longrightarrow> be_val a = be_val b \<Longrightarrow> a = b"
proof (induction a arbitrary: b)
  case Nil
  then show ?case by simp
next
  case (Cons x xs)
  then obtain y ys where b: "b = y # ys" and len: "length xs = length ys"
    by (cases b) auto
  define M :: nat where "M = 256 ^ length xs"
  have eq: "unat x * M + be_val xs = unat y * M + be_val ys"
    using Cons.prems(2) by (simp add: b M_def len)
  have bx: "be_val xs < M" and by': "be_val ys < M"
    using be_val_bound [of xs] be_val_bound [of ys] by (simp_all add: M_def len)
  have "(unat x * M + be_val xs) div M = unat x" "(unat y * M + be_val ys) div M = unat y"
    using bx by' by simp_all
  with eq have hd: "unat x = unat y" by simp
  with eq have "be_val xs = be_val ys" by simp
  with Cons.IH [OF len] hd show ?case by (simp add: b word_unat_eq_iff)
qed

lemma blocksLoop_length: "length (blocksLoop i blocks c) = length c"
  by (induction i blocks c rule: blocksLoop.induct) (simp_all add: Let_def carryLoop_length)

lemma blocksLoop_val:
  "i \<le> length c \<Longrightarrow> 0 \<le> blocks \<Longrightarrow>
   be_val (blocksLoop i blocks c)
     = (be_val c + nat blocks * 256 ^ (length c - i)) mod 256 ^ length c"
proof (induction i arbitrary: blocks c)
  case 0
  then show ?case using be_val_bound [of c] by simp
next
  case (Suc i)
  show ?case
  proof (cases "blocks > 0")
    case False
    then have "blocks = 0" using Suc.prems by simp
    then show ?thesis using be_val_bound [of c] by simp
  next
    case True
    define b0 where "b0 = nat (blocks mod 256)"
    define sum where "sum = unat (c ! i) + b0"
    define c1 where "c1 = c[i := of_nat (sum mod 256) :: byte]"
    define c2 where "c2 = (if sum > 255 then carryLoop i (sum div 256) c1 else c1)"
    define W :: nat where "W = 256 ^ (length c - Suc i)"
    define N :: nat where "N = 256 ^ length c"
    have i: "i < length c" using Suc.prems by simp
    then have pw: "(256::nat) ^ (length c - i) = 256 * W"
      by (simp add: W_def Suc_diff_Suc flip: power_Suc)
    have len1: "length c1 = length c" by (simp add: c1_def)
    have len2: "length c2 = length c" by (simp add: c2_def len1 carryLoop_length)
    have upd: "be_val c1 + unat (c ! i) * W = be_val c + (sum mod 256) * W"
      unfolding c1_def W_def using be_val_update [OF i, of "of_nat (sum mod 256)"]
      by (simp add: unat_byte_mod)
    have split: "sum * W = (sum div 256) * (256 * W) + (sum mod 256) * W"
      by (metis div_mult_mod_eq distrib_right mult.assoc)
    have eq: "be_val c1 + (sum div 256) * (256 * W) = be_val c + b0 * W"
      using upd split by (simp add: sum_def distrib_right)
    have c2val: "be_val c2 = (be_val c + b0 * W) mod N"
    proof (cases "sum > 255")
      case True
      have "be_val (carryLoop i (sum div 256) c1)
          = (be_val c1 + (sum div 256) * 256 ^ (length c1 - i)) mod 256 ^ length c1"
        using i by (intro carryLoop_val) (simp add: len1)
      then show ?thesis using True by (simp only: c2_def len1 pw eq N_def if_True)
    next
      case False
      then have "sum div 256 = 0" by simp
      with eq have "be_val c1 = be_val c + b0 * W" by simp
      moreover have "be_val c1 < N" using be_val_bound [of c1] by (simp add: len1 N_def)
      ultimately show ?thesis using False by (simp add: c2_def)
    qed
    have nn: "0 \<le> blocks div 256" using True by (simp add: pos_imp_zdiv_nonneg_iff)
    have "nat blocks = nat (blocks div 256 * 256 + blocks mod 256)" by simp
    also have "\<dots> = nat (blocks div 256 * 256) + nat (blocks mod 256)"
      using nn by (intro nat_add_distrib) simp_all
    also have "nat (blocks div 256 * 256) = nat (blocks div 256) * 256"
      using nn by (simp add: nat_mult_distrib)
    finally have blk: "nat blocks = nat (blocks div 256) * 256 + b0"
      by (simp add: b0_def)
    have "be_val (blocksLoop i (blocks div 256) c2)
        = (be_val c2 + nat (blocks div 256) * 256 ^ (length c2 - i)) mod 256 ^ length c2"
      using i nn by (intro Suc.IH) (simp_all add: len2)
    then have "be_val (blocksLoop i (blocks div 256) c2)
        = ((be_val c + b0 * W) mod N + nat (blocks div 256) * (256 * W)) mod N"
      by (simp only: len2 pw c2val N_def)
    also have "\<dots> = (be_val c + b0 * W + nat (blocks div 256) * (256 * W)) mod N"
      by (simp add: mod_add_left_eq)
    also have "be_val c + b0 * W + nat (blocks div 256) * (256 * W) = be_val c + nat blocks * W"
      by (subst blk) (simp add: distrib_right)
    finally have "be_val (blocksLoop i (blocks div 256) c2) = (be_val c + nat blocks * W) mod N" .
    moreover have "blocksLoop (Suc i) blocks c = blocksLoop i (blocks div 256) c2"
      using True
      by (simp add: Let_def int_and_255 nat_and_255 nat_drop_bit_8 int_drop_bit_8 sum_def c1_def
          c2_def b0_def)
    ultimately show ?thesis by (simp only: W_def N_def)
  qed
qed

lemma incrementCounter_Some:
  "16 \<le> length c \<Longrightarrow> incrementCounter c k = Some (blocksLoop 16 k c)"
  by (simp add: incrementCounter_def)

lemma incrementCounter_val:
  assumes "length c = 16" "0 \<le> k"
  shows "\<exists>c'. incrementCounter c k = Some c' \<and> length c' = 16 \<and>
           be_val c' = (be_val c + nat k) mod 2 ^ 128"
proof -
  have "be_val (blocksLoop 16 k c) = (be_val c + nat k * 256 ^ (length c - 16)) mod 256 ^ length c"
    using assms by (intro blocksLoop_val) simp_all
  then have "be_val (blocksLoop 16 k c) = (be_val c + nat k) mod 2 ^ 128"
    using assms(1) by simp
  then show ?thesis using assms(1) by (simp add: incrementCounter_Some blocksLoop_length)
qed

text \<open>
  Claim C3. For a 16-byte counter \<open>iv\<close> and every \<open>k \<ge> 1\<close> in the \<^verbatim>\<open>int64\<close> range,
  adding \<open>k\<close> blocks in one call of \<open>incrementCounter\<close> gives the same counter as adding
  \<open>k - 1\<close> blocks and then one block, and the result is the big-endian 128-bit sum
  \<open>iv + k\<close> modulo \<open>2 ^ 128\<close>: the carry runs from byte 15 towards byte 0 and a carry
  out of byte 0 is dropped.
\<close>

theorem incrementCounter_step:
  assumes len: "length iv = 16" and k: "1 \<le> k" and rng: "int64 k"
  shows "incrementCounter iv k = Option.bind (incrementCounter iv (k - 1)) (\<lambda>c. incrementCounter c 1)
       \<and> (\<exists>c. incrementCounter iv k = Some c \<and> length c = 16
              \<and> be_val c = (be_val iv + nat k) mod 2 ^ 128)"
proof -
  obtain ck where ck: "incrementCounter iv k = Some ck" "length ck = 16"
      "be_val ck = (be_val iv + nat k) mod 2 ^ 128"
    using incrementCounter_val [OF len, of k] k by auto
  obtain c1 where c1: "incrementCounter iv (k - 1) = Some c1" "length c1 = 16"
      "be_val c1 = (be_val iv + nat (k - 1)) mod 2 ^ 128"
    using incrementCounter_val [OF len, of "k - 1"] k by auto
  obtain c2 where c2: "incrementCounter c1 1 = Some c2" "length c2 = 16"
      "be_val c2 = (be_val c1 + nat 1) mod 2 ^ 128"
    using incrementCounter_val [OF c1(2), of 1] by auto
  have "be_val c2 = ((be_val iv + nat (k - 1)) mod 2 ^ 128 + 1) mod 2 ^ 128"
    using c2(3) c1(3) by simp
  also have "\<dots> = (be_val iv + nat (k - 1) + 1) mod 2 ^ 128"
    by (rule mod_add_left_eq)
  also have "be_val iv + nat (k - 1) + 1 = be_val iv + nat k"
    using k by simp
  finally have "be_val c2 = be_val ck" using ck(3) by simp
  then have "c2 = ck" using c2(2) ck(2) by (intro be_val_inj) simp_all
  then show ?thesis using ck c1 c2 by simp
qed

theorem incrementCounter_step_witness:
  "length (replicate 16 (255 :: byte)) = 16 \<and> (1 :: int) \<le> 1 \<and> int64 1
   \<and> incrementCounter (replicate 16 255) 1
       = Option.bind (incrementCounter (replicate 16 255) (1 - 1)) (\<lambda>c. incrementCounter c 1)
   \<and> (\<exists>c. incrementCounter (replicate 16 255) 1 = Some c \<and> length c = 16
          \<and> be_val c = (be_val (replicate 16 255) + nat 1) mod 2 ^ 128)"
proof -
  have h: "length (replicate 16 (255 :: byte)) = 16" "(1 :: int) \<le> 1" "int64 1"
    by (simp_all add: int64_def)
  show ?thesis using h incrementCounter_step [OF h] by blast
qed

subsection \<open>The CTR stream and the cryptor\<close>


lemma byte_succ_of_nat: "(of_nat ((unat x + 1) mod 256) :: byte) = x + 1"
proof -
  have "unat (of_nat ((unat x + 1) mod 256) :: byte) = unat (x + 1)"
    by (simp add: unat_byte_mod unat_word_ariths)
  then show ?thesis by (simp add: word_unat_eq_iff)
qed

lemma byte_succ_carry: "(unat (x :: byte) + 1) div 256 = (if x + 1 = 0 then 1 else 0)"
proof -
  have lt: "unat x < 256" using unsigned_less [of x, where 'a = nat] by simp
  have "(x + 1 = 0) = (unat (x + 1) = 0)" by (simp add: unat_eq_0)
  also have "\<dots> = ((unat x + 1) mod 256 = 0)" by (simp add: unat_word_ariths)
  finally have "(x + 1 = 0) = (unat x = 255)" using lt by presburger
  then show ?thesis using lt by auto
qed

lemma carryLoop_zero: "carryLoop i 0 c = c"
  by (cases i) simp_all

lemma incLoop_carryLoop: "i \<le> length c \<Longrightarrow> incLoop i c = carryLoop i 1 c"
proof (induction i arbitrary: c)
  case 0
  then show ?case by simp
next
  case (Suc i)
  define c' where "c' = c[i := c ! i + 1]"
  have i: "i < length c" using Suc.prems by simp
  then have nth: "c' ! i = c ! i + 1" by (simp add: c'_def)
  have ih: "incLoop i c' = carryLoop i 1 c'" using i by (intro Suc.IH) (simp add: c'_def)
  have "carryLoop (Suc i) 1 c = carryLoop i (if c ! i + 1 = 0 then 1 else 0) c'"
    by (simp add: Let_def nat_and_255 nat_drop_bit_8 byte_succ_of_nat byte_succ_carry c'_def
        del: One_nat_def)
  moreover have "incLoop (Suc i) c = (if c ! i + 1 \<noteq> 0 then c' else incLoop i c')"
    using nth by (simp add: Let_def flip: c'_def)
  ultimately show ?case by (simp add: ih carryLoop_zero)
qed

lemma ctrInc_length: "length (ctrInc c) = length c"
  by (simp add: ctrInc_def incLoop_carryLoop carryLoop_length)

lemma ctrInc_val: "be_val (ctrInc c) = (be_val c + 1) mod 256 ^ length c"
  using carryLoop_val [of "length c" c 1] by (simp add: ctrInc_def incLoop_carryLoop)

lemma ctrInc_iter_length: "length ((ctrInc ^^ m) c) = length c"
  by (induction m) (simp_all add: ctrInc_length)

lemma ctrInc_iter_val: "be_val ((ctrInc ^^ m) c) = (be_val c + m) mod 256 ^ length c"
proof (induction m)
  case 0
  then show ?case using be_val_bound [of c] by simp
next
  case (Suc m)
  have "be_val ((ctrInc ^^ Suc m) c) = ((be_val c + m) mod 256 ^ length c + 1) mod 256 ^ length c"
    by (simp add: ctrInc_val ctrInc_iter_length Suc del: One_nat_def)
  also have "\<dots> = (be_val c + m + 1) mod 256 ^ length c" by (rule mod_add_left_eq)
  finally show ?case by simp
qed

lemma incrementCounter_iter:
  assumes "length c = 16" "0 \<le> k"
  shows "incrementCounter c k = Some ((ctrInc ^^ nat k) c)"
proof -
  obtain c' where c': "incrementCounter c k = Some c'" "length c' = 16"
      "be_val c' = (be_val c + nat k) mod 2 ^ 128"
    using incrementCounter_val [OF assms] by auto
  have "be_val ((ctrInc ^^ nat k) c) = (be_val c + nat k) mod 2 ^ 128"
    using assms(1) by (simp add: ctrInc_iter_val)
  then have "c' = (ctrInc ^^ nat k) c"
    using c'(2,3) assms(1) by (intro be_val_inj) (simp_all add: ctrInc_iter_length)
  then show ?thesis using c'(1) by simp
qed

lemma atPos_Suc:
  assumes "atPos b c0 q s"
  shows "atPos b c0 (Suc q)
          (if Suc (outUsed s) = 16 then s\<lparr>ctr := ctrInc (ctr s), outUsed := 0\<rparr>
           else s\<lparr>outUsed := Suc (outUsed s)\<rparr>)"
proof (cases "Suc (q mod 16) = 16")
  case True
  then have "Suc q div 16 = Suc (q div 16)" "Suc q mod 16 = 0"
    by (simp_all add: div_Suc mod_Suc)
  with assms True show ?thesis by (simp add: atPos_def)
next
  case False
  then have "Suc q div 16 = q div 16" "Suc q mod 16 = Suc (q mod 16)"
    by (simp_all add: div_Suc mod_Suc)
  with assms False show ?thesis by (simp add: atPos_def)
qed

lemma XORKeyStream_atPos:
  "atPos b c0 q s \<Longrightarrow>
   fst (XORKeyStream s xs) = xorFrom b c0 q xs
   \<and> atPos b c0 (q + length xs) (snd (XORKeyStream s xs))"
proof (induction xs arbitrary: q s)
  case Nil
  then show ?case by simp
next
  case (Cons x xs)
  let ?s' = "if Suc (outUsed s) = 16 then s\<lparr>ctr := ctrInc (ctr s), outUsed := 0\<rparr>
             else s\<lparr>outUsed := Suc (outUsed s)\<rparr>"
  have k: "block s (ctr s) ! outUsed s = ksByte b c0 q"
    using Cons.prems by (simp add: atPos_def ksByte_def)
  have "atPos b c0 (Suc q) ?s'" using Cons.prems by (rule atPos_Suc)
  from Cons.IH [OF this] k show ?case by (simp add: Let_def)
qed

lemma xorFrom_length: "length (xorFrom b c0 q xs) = length xs"
  by (induction xs arbitrary: q) simp_all

lemma xorFrom_involution: "xorFrom b c0 q (xorFrom b c0 q xs) = xs"
  by (induction xs arbitrary: q) (simp_all add: xor.assoc)

lemma xorFrom_take: "take n (xorFrom b c0 q xs) = xorFrom b c0 q (take n xs)"
proof (induction xs arbitrary: q n)
  case Nil
  then show ?case by simp
next
  case (Cons x xs)
  then show ?case by (cases n) simp_all
qed

lemma xorFrom_drop: "drop n (xorFrom b c0 q xs) = xorFrom b c0 (q + n) (drop n xs)"
proof (induction xs arbitrary: q n)
  case Nil
  then show ?case by simp
next
  case (Cons x xs)
  then show ?case by (cases n) simp_all
qed

lemma sdiv_16_nonneg: "0 \<le> a \<Longrightarrow> a sdiv 16 = a div (16 :: int)"
  by (simp add: signed_divide_int_def sgn_if)

lemma smod_16_nonneg: "0 \<le> a \<Longrightarrow> a smod 16 = a mod (16 :: int)"
  by (simp add: signed_modulo_int_def sgn_if)

lemma initCipherStream_atPos:
  assumes md: "metadata e = Some m" and key: "length (KeyPlainText m) = 32"
    and iv: "length (IV m) = 16" and a: "0 \<le> a"
  shows "\<exists>s. initCipherStream aes e a = Inr (e\<lparr>stream := Some s\<rparr>)
             \<and> atPos (aes (KeyPlainText m)) (IV m) (nat a) s"
proof -
  define b where "b = aes (KeyPlainText m)"
  define q where "q = nat a"
  have ciph: "NewCipher aes (KeyPlainText m) = Inr b" by (simp add: NewCipher_def key b_def)
  have cnt: "take 16 (IV m) @ replicate (16 - length (IV m)) 0 = IV m" using iv by simp
  have inc: "(if a > 0 then incrementCounter (IV m) (a sdiv 16) else Some (IV m))
      = Some ((ctrInc ^^ (q div 16)) (IV m))"
  proof (cases "a > 0")
    case True
    have "nat (a div 16) = q div 16" using a by (simp add: q_def nat_div_distrib)
    then show ?thesis
      using True a incrementCounter_iter [OF iv, of "a div 16"]
      by (simp add: sdiv_16_nonneg pos_imp_zdiv_nonneg_iff)
  next
    case False
    then have "q = 0" using a by (simp add: q_def)
    with False show ?thesis by simp
  qed
  define s0 where "s0 = NewCTR b ((ctrInc ^^ (q div 16)) (IV m))"
  have s0: "atPos b (IV m) (16 * (q div 16)) s0"
    by (simp add: atPos_def s0_def NewCTR_def)
  have r1: "nat (a smod 16) = q mod 16"
    using a by (simp add: smod_16_nonneg q_def nat_mod_distrib)
  have "0 \<le> a smod 16" using a by (simp add: smod_16_nonneg)
  then have r2: "(a smod 16 > 0) = (q mod 16 > 0)"
    using r1 by linarith
  note r = r1 r2
  define s where "s = (if q mod 16 > 0 then snd (XORKeyStream s0 (replicate (q mod 16) 0)) else s0)"
  have "atPos b (IV m) q s"
  proof (cases "q mod 16 > 0")
    case True
    have "atPos b (IV m) (16 * (q div 16) + length (replicate (q mod 16) (0 :: byte)))
        (snd (XORKeyStream s0 (replicate (q mod 16) 0)))"
      using XORKeyStream_atPos [OF s0] by blast
    then show ?thesis using True by (simp add: s_def)
  next
    case False
    then have "16 * (q div 16) = q" by presburger
    with s0 False show ?thesis by (simp add: s_def)
  qed
  moreover have "initCipherStream aes e a = Inr (e\<lparr>stream := Some s\<rparr>)"
    unfolding initCipherStream_def
    by (simp only: md option.case ciph sum.case cnt Let_def inc r s_def s0_def)
  ultimately show ?thesis by (auto simp: b_def q_def)
qed

lemma loaded_eq:
  "0 < length K \<Longrightarrow> loaded aes K I = NewAES256CTR\<lparr>metadata := Some (plainMetadata K I)\<rparr>"
  by (simp add: loaded_def LoadMetadata_def plainMetadata_def)

lemma SetSource_loaded:
  assumes key: "length K = 32" and iv: "length I = 16" and co: "0 \<le> co"
  shows "\<exists>s. SetSource aes (loaded aes K I) rd sk sz co
            = (None, \<lparr>src = rd, seeker = sk, stream = Some s,
                      metadata = Some (plainMetadata K I), counterOffset = co, pos = 0,
                      size = sz, eof = False\<rparr>)
           \<and> atPos (aes K) I (nat co) s"
proof -
  define e1 where
    "e1 = \<lparr>src = rd, seeker = sk, stream = None, metadata = Some (plainMetadata K I),
           counterOffset = co, pos = 0, size = sz, eof = False\<rparr>"
  have md: "metadata e1 = Some (plainMetadata K I)" by (simp add: e1_def)
  have "length (KeyPlainText (plainMetadata K I)) = 32" "length (IV (plainMetadata K I)) = 16"
    using key iv by (simp_all add: plainMetadata_def)
  from initCipherStream_atPos [OF md this co, of aes]
  obtain s where s: "initCipherStream aes e1 co = Inr (e1\<lparr>stream := Some s\<rparr>)"
      "atPos (aes K) I (nat co) s"
    by (auto simp: plainMetadata_def)
  have "SetSource aes (loaded aes K I) rd sk sz co = (None, e1\<lparr>stream := Some s\<rparr>)"
    using key s(1) by (simp add: SetSource_def loaded_eq NewAES256CTR_def Let_def flip: e1_def)
  with s(2) show ?thesis by (auto simp: e1_def)
qed

lemma add64_small: "int64 (a + b) \<Longrightarrow> add64 a b = a + b"
  by (simp add: add64_def int64_def signed_take_bit_int_eq_self)

lemma be_val_snoc: "be_val (bs @ [b]) = 256 * be_val bs + unat b"
  by (induction bs) simp_all

lemma be_bytes_length: "length (be_bytes n v) = n"
  by (induction n arbitrary: v) simp_all

lemma be_val_be_bytes: "be_val (be_bytes n v) = v mod 256 ^ n"
proof (induction n arbitrary: v)
  case 0
  then show ?case by simp
next
  case (Suc n)
  have "be_val (be_bytes (Suc n) v) = 256 * ((v div 256) mod 256 ^ n) + v mod 256"
    by (simp add: be_val_snoc Suc unat_byte_mod)
  also have "\<dots> = v mod (256 * 256 ^ n)"
    by (simp add: mod_mult2_eq)
  finally show ?case by simp
qed

lemma ctrInc_iter_ctrBlock:
  assumes "length iv = 16"
  shows "(ctrInc ^^ m) iv = ctrBlock iv m"
proof (rule be_val_inj)
  show "length ((ctrInc ^^ m) iv) = length (ctrBlock iv m)"
    using assms by (simp add: ctrInc_iter_length ctrBlock_def be_bytes_length)
  show "be_val ((ctrInc ^^ m) iv) = be_val (ctrBlock iv m)"
    using assms by (simp add: ctrInc_iter_val ctrBlock_def be_val_be_bytes)
qed

lemma ksByte_keystreamByte:
  "length iv = 16 \<Longrightarrow> ksByte (aes K) iv q = keystreamByte aes K iv q"
  by (simp add: ksByte_def keystreamByte_def ctrInc_iter_ctrBlock)

lemma xorFrom_nth:
  "i < length xs \<Longrightarrow> xorFrom b c0 q xs ! i = xs ! i XOR ksByte b c0 (q + i)"
proof (induction xs arbitrary: q i)
  case Nil
  then show ?case by simp
next
  case (Cons x xs)
  then show ?case by (cases i) simp_all
qed

lemma xorFrom_ctrXor:
  assumes "length iv = 16"
  shows "xorFrom (aes K) iv q xs = ctrXor aes K iv q xs"
proof (rule nth_equalityI)
  show "length (xorFrom (aes K) iv q xs) = length (ctrXor aes K iv q xs)"
    by (simp add: xorFrom_length ctrXor_def)
  fix i assume "i < length (xorFrom (aes K) iv q xs)"
  then have i: "i < length xs" by (simp add: xorFrom_length)
  then show "xorFrom (aes K) iv q xs ! i = ctrXor aes K iv q xs ! i"
    using assms by (simp add: xorFrom_nth ctrXor_def ksByte_keystreamByte)
qed

lemma openCryptor_ok:
  assumes key: "length K = 32" and iv: "length I = 16" and co: "0 \<le> co"
  shows "\<exists>s. openCryptor aes K I rd sk sz co
            = Inr \<lparr>src = rd, seeker = sk, stream = Some s,
                   metadata = Some (plainMetadata K I), counterOffset = co, pos = 0,
                   size = sz, eof = False\<rparr>
           \<and> atPos (aes K) I (nat co) s"
proof -
  have ld: "LoadMetadata aes (Inl (Err ''no master key'')) NewAES256CTR (Some (plainMetadata K I))
      = (None, loaded aes K I)"
    using key by (simp add: loaded_def LoadMetadata_def plainMetadata_def)
  obtain s where s: "SetSource aes (loaded aes K I) rd sk sz co
            = (None, \<lparr>src = rd, seeker = sk, stream = Some s,
                      metadata = Some (plainMetadata K I), counterOffset = co, pos = 0,
                      size = sz, eof = False\<rparr>)"
      "atPos (aes K) I (nat co) s"
    using SetSource_loaded [OF key iv co, of aes rd sk sz] by blast
  show ?thesis
    unfolding openCryptor_def ld by (simp add: s)
qed

lemma Read_memRead_full:
  assumes src: "src e = Some memRead" and eof: "\<not> eof e" and st: "stream e = Some s"
    and at: "atPos b c0 q s" and n: "offset w + n \<le> length (content w)"
    and rng: "int64 (pos e + int n)"
  shows "\<exists>e' s'. Read e w (replicate n 0)
            = ((xorFrom b c0 q (take n (drop (offset w) (content w))), n,
                if offset w \<ge> length (content w) then Some EOF else None),
               e', w\<lparr>offset := offset w + n\<rparr>)
          \<and> stream e' = Some s' \<and> atPos b c0 (q + n) s'
          \<and> pos e' = pos e + int n \<and> counterOffset e' = counterOffset e"
proof (cases "offset w \<ge> length (content w)")
  case True
  then have n0: "n = 0" using n by simp
  have "Read e w (replicate n 0) = (([], 0, Some EOF), e\<lparr>eof := True\<rparr>, w)"
    using True src eof by (simp add: Read_def memRead_def n0)
  then show ?thesis using True n0 st at by simp
next
  case False
  define p1 where "p1 = take n (drop (offset w) (content w))"
  have len: "length p1 = n" using n by (simp add: p1_def)
  have mr: "memRead w (replicate n 0) = ((p1, n, None), w\<lparr>offset := offset w + n\<rparr>)"
    using False n by (simp add: memRead_def Let_def p1_def min_def)
  show ?thesis
  proof (cases "n = 0")
    case True
    have "Read e w (replicate n 0) = ((p1, n, None), e, w\<lparr>offset := offset w + n\<rparr>)"
      using src eof mr True by (simp add: Read_def decryptInPlace_def)
    then show ?thesis using False True st at len by (simp flip: p1_def)
  next
    case n: False
    define r where "r = XORKeyStream s (take n p1)"
    have r: "fst r = xorFrom b c0 q p1" "atPos b c0 (q + n) (snd r)"
      using XORKeyStream_atPos [OF at, of p1] len by (simp_all add: r_def)
    have "Read e w (replicate n 0)
        = ((fst r, n, None), e\<lparr>stream := Some (snd r), pos := add64 (pos e) (int n)\<rparr>,
           w\<lparr>offset := offset w + n\<rparr>)"
      using src eof mr len st n by (simp add: Read_def decryptInPlace_def Let_def r_def)
    then show ?thesis
      using False r rng by (simp add: add64_small flip: p1_def)
  qed
qed

lemma atPos_aligned:
  assumes "length iv = 16" "stream e = Some st" "atPos (aes K) iv q st"
    "nat (counterOffset e + pos e) = q"
  shows "alignedAt aes K iv e zs"
  using assms XORKeyStream_atPos [of "aes K" iv q st zs]
  by (simp add: alignedAt_def xorFrom_ctrXor)


lemma ctrXor_length: "length (ctrXor aes K iv q xs) = length xs"
  by (simp add: ctrXor_def)

lemma ctrXor_decrypt:
  assumes "length iv = 16"
  shows "xorFrom (aes K) iv s (take n (drop s (ctrXor aes K iv 0 P))) = take n (drop s P)"
proof -
  have "ctrXor aes K iv 0 P = xorFrom (aes K) iv 0 P"
    using assms by (simp add: xorFrom_ctrXor)
  then show ?thesis
    by (simp add: xorFrom_drop xorFrom_involution flip: xorFrom_take)
qed

lemma encrypt_run:
  assumes key: "length K = 32" and iv: "length I = 16" and rng: "length P < 2 ^ 63"
  shows "\<exists>e w. encrypt aes K I P
           = Inr ((ctrXor aes K I 0 P, length P, if P = [] then Some EOF else None), e, w)"
proof -
  obtain s0 where s0: "openCryptor aes K I (Some memRead) (Some memSeek) (int (length P)) 0
            = Inr \<lparr>src = Some memRead, seeker = Some memSeek, stream = Some s0,
                   metadata = Some (plainMetadata K I), counterOffset = 0, pos = 0,
                   size = int (length P), eof = False\<rparr>"
      "atPos (aes K) I (nat 0) s0"
    using openCryptor_ok [OF key iv, of 0 aes "Some memRead" "Some memSeek" "int (length P)"]
    by auto
  let ?e = "\<lparr>src = Some memRead, seeker = Some memSeek, stream = Some s0,
                   metadata = Some (plainMetadata K I), counterOffset = 0, pos = 0,
                   size = int (length P), eof = False\<rparr>"
  let ?w = "\<lparr>content = P, offset = 0\<rparr>"
  have at: "atPos (aes K) I 0 s0" using s0(2) by simp
  have "int64 (pos ?e + int (length P))" using rng by (simp add: int64_def)
  from Read_memRead_full [where e = ?e and w = ?w and n = "length P", OF _ _ _ at _ this]
  obtain e' where "Read ?e ?w (replicate (length P) 0)
            = ((xorFrom (aes K) I 0 P, length P, if P = [] then Some EOF else None),
               e', ?w\<lparr>offset := length P\<rparr>)"
    by auto
  then show ?thesis
    unfolding encrypt_def s0(1) using iv by (simp add: xorFrom_ctrXor)
qed

lemma decryptSeek_run:
  assumes key: "length K = 32" and iv: "length I = 16" and bound: "s + n \<le> length P"
    and rng: "length P < 2 ^ 63"
  shows "\<exists>e w. decryptSeek aes K I (ctrXor aes K I 0 P) s n
           = Inr (int s, (take n (drop s P), n, if s = length P then Some EOF else None), e, w)
         \<and> counterOffset e = 0 \<and> pos e = int (s + n) \<and> alignedAt aes K I e zs"
proof -
  define C where "C = ctrXor aes K I 0 P"
  have lenC: "length C = length P" by (simp add: C_def ctrXor_length)
  obtain s0 where s0: "openCryptor aes K I (Some memRead) (Some memSeek) (int (length C)) 0
            = Inr \<lparr>src = Some memRead, seeker = Some memSeek, stream = Some s0,
                   metadata = Some (plainMetadata K I), counterOffset = 0, pos = 0,
                   size = int (length C), eof = False\<rparr>"
    using openCryptor_ok [OF key iv, of 0 aes "Some memRead" "Some memSeek" "int (length C)"]
    by auto
  define e :: "memSource AES256CTR" where
    "e = \<lparr>src = Some memRead, seeker = Some memSeek, stream = Some s0,
                   metadata = Some (plainMetadata K I), counterOffset = 0, pos = 0,
                   size = int (length C), eof = False\<rparr>"
  have md: "metadata e = Some (plainMetadata K I)" by (simp add: e_def)
  have "length (KeyPlainText (plainMetadata K I)) = 32" "length (IV (plainMetadata K I)) = 16"
    using key iv by (simp_all add: plainMetadata_def)
  from initCipherStream_atPos [OF md this, of "int s" aes]
  obtain s1 where s1: "initCipherStream aes e (int s) = Inr (e\<lparr>stream := Some s1\<rparr>)"
      "atPos (aes K) I s s1"
    by (auto simp: plainMetadata_def)
  have "int64 (int s)" using bound rng by (simp add: int64_def)
  then have abs: "add64 (counterOffset e) (int s) = int s" by (simp add: e_def add64_small)
  define w1 where "w1 = \<lparr>content = C, offset = s\<rparr>"
  have sk: "memSeek \<lparr>content = C, offset = 0\<rparr> (int s) SeekStart = ((int s, None), w1)"
    by (simp add: memSeek_def w1_def)
  define e2 where "e2 = e\<lparr>stream := Some s1, pos := int s, eof := False\<rparr>"
  have fields: "src e = Some memRead" "seeker e = Some memSeek" by (simp_all add: e_def)
  have tgt: "seekTarget e (int s) SeekStart = Inr (int s)" by (simp add: seekTarget_def)
  have seek: "Seek aes e \<lparr>content = C, offset = 0\<rparr> (int s) SeekStart = ((int s, None), e2, w1)"
    unfolding Seek_def
    by (simp add: md fields tgt abs sk s1(1) e2_def Let_def)
  have r64: "int64 (pos e2 + int n)" using bound rng by (simp add: e2_def int64_def)
  have b: "offset w1 + n \<le> length (content w1)" using bound lenC by (simp add: w1_def)
  from Read_memRead_full [where e = e2 and w = w1 and n = n, OF _ _ _ s1(2) b r64]
  obtain e' s' where rd: "Read e2 w1 (replicate n 0)
            = ((xorFrom (aes K) I s (take n (drop s C)), n,
                if s \<ge> length C then Some EOF else None), e', w1\<lparr>offset := s + n\<rparr>)"
      "stream e' = Some s'" "atPos (aes K) I (s + n) s'" "pos e' = int s + int n"
      "counterOffset e' = 0"
    by (auto simp: e2_def e_def w1_def)
  have plain: "xorFrom (aes K) I s (take n (drop s C)) = take n (drop s P)"
    unfolding C_def by (rule ctrXor_decrypt [OF iv])
  have eofc: "(s \<ge> length C) = (s = length P)" using bound lenC by auto
  have al: "alignedAt aes K I e' zs"
    by (rule atPos_aligned [where aes = aes and K = K, OF iv rd(2) rd(3)]) (simp add: rd(4,5))
  have "decryptSeek aes K I C s n
      = Inr (int s, (take n (drop s P), n, if s = length P then Some EOF else None), e',
             w1\<lparr>offset := s + n\<rparr>)"
    unfolding decryptSeek_def s0 by (simp add: seek rd(1) plain eofc flip: e_def)
  then show ?thesis using al rd(4,5) by (auto simp: C_def)
qed

lemma decryptSlice_run:
  assumes key: "length K = 32" and iv: "length I = 16" and bound: "s + n \<le> length P"
    and rng: "length P < 2 ^ 63"
  shows "\<exists>e w. decryptSlice aes K I (ctrXor aes K I 0 P) s n
           = Inr ((take n (drop s P), n, if s = length P then Some EOF else None), e, w)
         \<and> counterOffset e = int s \<and> pos e = int n \<and> alignedAt aes K I e zs"
proof -
  define C where "C = ctrXor aes K I 0 P"
  have lenC: "length C = length P" by (simp add: C_def ctrXor_length)
  obtain s0 where s0: "openCryptor aes K I (Some memRead) None (- 1) (int s)
            = Inr \<lparr>src = Some memRead, seeker = None, stream = Some s0,
                   metadata = Some (plainMetadata K I), counterOffset = int s, pos = 0,
                   size = - 1, eof = False\<rparr>"
      "atPos (aes K) I (nat (int s)) s0"
    using openCryptor_ok [OF key iv, of "int s" aes "Some memRead" None "- 1"] by auto
  define e :: "memSource AES256CTR" where
    "e = \<lparr>src = Some memRead, seeker = None, stream = Some s0,
                   metadata = Some (plainMetadata K I), counterOffset = int s, pos = 0,
                   size = - 1, eof = False\<rparr>"
  define w where "w = \<lparr>content = drop s C, offset = 0\<rparr>"
  have at: "atPos (aes K) I s s0" using s0(2) by simp
  have r64: "int64 (pos e + int n)" using bound rng by (simp add: e_def int64_def)
  have b: "offset w + n \<le> length (content w)" using bound lenC by (simp add: w_def)
  from Read_memRead_full [where e = e and w = w and n = n, OF _ _ _ at b r64]
  obtain e' s' where rd: "Read e w (replicate n 0)
            = ((xorFrom (aes K) I s (take n (drop s C)), n,
                if s \<ge> length C then Some EOF else None), e', w\<lparr>offset := n\<rparr>)"
      "stream e' = Some s'" "atPos (aes K) I (s + n) s'" "pos e' = int n"
      "counterOffset e' = int s"
    by (auto simp: e_def w_def)
  have plain: "xorFrom (aes K) I s (take n (drop s C)) = take n (drop s P)"
    unfolding C_def by (rule ctrXor_decrypt [OF iv])
  have eofc: "(s \<ge> length C) = (s = length P)" using bound lenC by auto
  have al: "alignedAt aes K I e' zs"
    by (rule atPos_aligned [where aes = aes and K = K, OF iv rd(2) rd(3)]) (simp add: rd(4,5))
  have "decryptSlice aes K I C s n
      = Inr ((take n (drop s P), n, if s = length P then Some EOF else None), e',
             w\<lparr>offset := n\<rparr>)"
    unfolding decryptSlice_def s0(1) by (simp add: rd(1) plain eofc flip: e_def w_def)
  then show ?thesis using al rd(4,5) by (auto simp: C_def)
qed

text \<open>
  Claim C1. For every plaintext \<open>P\<close>, 32-byte file key \<open>K\<close>, 16-byte IV \<open>I\<close> and all
  \<open>s\<close>, \<open>n\<close> with \<open>s + n \<le> |P|\<close>, and for every block function \<open>aes\<close>:
  \<^item> encrypting \<open>P\<close> with the cryptor raises no error and yields the AES-CTR encryption
    of \<open>P\<close> under \<open>(K, I)\<close> as the specification defines it (\<open>ctrXor aes K I 0 P\<close>);
  \<^item> a cryptor over that encrypted object, after \<^verbatim>\<open>Seek(s, SeekStart)\<close>, which returns
    position \<open>s\<close> and no error, reads \<open>n\<close> bytes, exactly \<open>P[s : s+n]\<close>, with no error
    other than \<^verbatim>\<open>io.EOF\<close> at the end of the object;
  \<^item> so does a cryptor bound by \<^verbatim>\<open>SetSource\<close> with \<^verbatim>\<open>counterOffset = s\<close> to the encrypted
    object from byte \<open>s\<close> on;
  \<^item> after either read the cipher stream stands at the absolute byte offset
    \<^verbatim>\<open>counterOffset + pos\<close> \<open>= s + n\<close>, also when that is not a multiple of the block size.
  The length of \<open>P\<close> is an \<^verbatim>\<open>int64\<close>, as every Go slice length is.
\<close>

theorem cipher_round_trip:
  assumes key: "length K = 32" and iv: "length I = 16" and bound: "s + n \<le> length P"
    and rng: "length P < 2 ^ 63"
  shows "(\<exists>e w. encrypt aes K I P
            = Inr ((ctrXor aes K I 0 P, length P, if P = [] then Some EOF else None), e, w))
       \<and> (\<exists>e w. decryptSeek aes K I (ctrXor aes K I 0 P) s n
            = Inr (int s, (take n (drop s P), n, if s = length P then Some EOF else None), e, w)
            \<and> counterOffset e = 0 \<and> pos e = int (s + n) \<and> alignedAt aes K I e zs)
       \<and> (\<exists>e w. decryptSlice aes K I (ctrXor aes K I 0 P) s n
            = Inr ((take n (drop s P), n, if s = length P then Some EOF else None), e, w)
            \<and> counterOffset e = int s \<and> pos e = int n \<and> alignedAt aes K I e zs)"
  using encrypt_run [OF key iv rng] decryptSeek_run [OF key iv bound rng]
    decryptSlice_run [OF key iv bound rng]
  by blast

theorem cipher_round_trip_witness:
  "length (replicate 32 (1 :: byte)) = 32 \<and> length (replicate 16 (255 :: byte)) = 16
   \<and> 17 + 3 \<le> length (replicate 20 (9 :: byte)) \<and> length (replicate 20 (9 :: byte)) < 2 ^ 63
   \<and> (\<exists>e w. encrypt toyCipher (replicate 32 1) (replicate 16 255) (replicate 20 9)
          = Inr ((ctrXor toyCipher (replicate 32 1) (replicate 16 255) 0 (replicate 20 9),
                  length (replicate 20 (9 :: byte)),
                  if replicate 20 (9 :: byte) = [] then Some EOF else None), e, w))
   \<and> (\<exists>e w. decryptSeek toyCipher (replicate 32 1) (replicate 16 255)
            (ctrXor toyCipher (replicate 32 1) (replicate 16 255) 0 (replicate 20 9)) 17 3
          = Inr (int 17, (take 3 (drop 17 (replicate 20 9)), 3,
                 if 17 = length (replicate 20 (9 :: byte)) then Some EOF else None), e, w)
          \<and> counterOffset e = 0 \<and> pos e = int (17 + 3)
          \<and> alignedAt toyCipher (replicate 32 1) (replicate 16 255) e [0, 0, 0])
   \<and> (\<exists>e w. decryptSlice toyCipher (replicate 32 1) (replicate 16 255)
            (ctrXor toyCipher (replicate 32 1) (replicate 16 255) 0 (replicate 20 9)) 17 3
          = Inr ((take 3 (drop 17 (replicate 20 9)), 3,
                 if 17 = length (replicate 20 (9 :: byte)) then Some EOF else None), e, w)
          \<and> counterOffset e = int 17 \<and> pos e = int 3
          \<and> alignedAt toyCipher (replicate 32 1) (replicate 16 255) e [0, 0, 0])"
proof -
  have h: "length (replicate 32 (1 :: byte)) = 32" "length (replicate 16 (255 :: byte)) = 16"
    "17 + 3 \<le> length (replicate 20 (9 :: byte))" "length (replicate 20 (9 :: byte)) < 2 ^ 63"
    by simp_all
  show ?thesis
    using h cipher_round_trip [OF h, of toyCipher "[0, 0, 0]"] by blast
qed


text \<open>
  Claim C8. \<^verbatim>\<open>Seek\<close> is atomic on structural errors: when the metadata is not loaded,
  the source is not set, the seeker is nil, \<^verbatim>\<open>whence\<close> is invalid, the size is negative
  with \<^verbatim>\<open>SeekEnd\<close>, or the computed new position is negative, it returns an error and
  the cryptor (so its \<^verbatim>\<open>pos\<close>, \<^verbatim>\<open>eof\<close>, cipher stream and \<^verbatim>\<open>counterOffset\<close>) and the
  source are exactly as before the call.
\<close>

theorem Seek_structural_error_atomic:
  assumes "metadata e = None \<or> src e = None \<or> seeker e = None
         \<or> (whence \<noteq> SeekStart \<and> whence \<noteq> SeekCurrent \<and> whence \<noteq> SeekEnd)
         \<or> (whence = SeekEnd \<and> size e < 0)
         \<or> (\<exists>newPos. seekTarget e off whence = Inr newPos \<and> newPos < 0)"
  shows "\<exists>err. Seek aes e w off whence = ((0, Some err), e, w)"
  using assms
  by (auto simp: Seek_def seekTarget_def SeekStart_def SeekCurrent_def SeekEnd_def
      split: option.splits sum.splits)

theorem Seek_structural_error_atomic_witness:
  "(\<exists>newPos. seekTarget seekableCryptor (- 5) SeekCurrent = Inr newPos \<and> newPos < 0)
   \<and> (\<exists>err. Seek toyCipher seekableCryptor \<lparr>content = [1, 2, 3, 4], offset = 3\<rparr> (- 5) SeekCurrent
         = ((0, Some err), seekableCryptor, \<lparr>content = [1, 2, 3, 4], offset = 3\<rparr>))"
proof -
  have "add64 3 (- 5) = - 2" by (simp add: add64_small int64_def)
  then have h: "\<exists>newPos. seekTarget seekableCryptor (- 5) SeekCurrent = Inr newPos \<and> newPos < 0"
    by (simp add: seekTarget_def seekableCryptor_def SeekStart_def SeekCurrent_def)
  then show ?thesis
    using Seek_structural_error_atomic
      [of seekableCryptor SeekCurrent "- 5" toyCipher "\<lparr>content = [1, 2, 3, 4], offset = 3\<rparr>"]
    by blast
qed

lemma Read_EOF_with_bytes:
  assumes "src e = Some rd" "\<not> eof e" "rd w p = ((p1, n, Some EOF), w1)" "n > 0"
    "stream e = Some s"
  shows "Read e w p =
    ((fst (XORKeyStream s (take n p1)) @ drop n p1, n, Some EOF),
     e\<lparr>eof := True, stream := Some (snd (XORKeyStream s (take n p1))),
        pos := add64 (pos e) (int n)\<rparr>, w1)"
  using assms by (simp add: Read_def decryptInPlace_def Let_def)

lemma Read_other_error_raw:
  assumes "src e = Some rd" "\<not> eof e" "rd w p = ((p1, n, Some err), w1)" "err \<noteq> EOF"
  shows "Read e w p = ((p1, n, Some err), e, w1)"
  using assms by (cases err) (simp_all add: Read_def)

lemma brokenCryptor_fields:
  "src brokenCryptor = Some brokenRead" "eof brokenCryptor = False" "pos brokenCryptor = 0"
  "stream brokenCryptor = Some (NewCTR (toyCipher (replicate 32 1)) (replicate 16 0))"
  by (simp_all add: brokenCryptor_def SetSource_def loaded_def LoadMetadata_def plainMetadata_def
      NewAES256CTR_def initCipherStream_def NewCipher_def Let_def)

text \<open>
  Claim C4 says that \<^verbatim>\<open>Read\<close> applies the key stream to the \<open>n > 0\<close> bytes delivered
  by the source before it passes on the source's error, EOF or otherwise. This holds for
  \<^verbatim>\<open>io.EOF\<close> (\<open>Read_EOF_with_bytes\<close>). On any other error the code returns at once
  (\<open>Read_other_error_raw\<close>): the run below returns \<open>n = 3\<close> with the three bytes of the
  source as they are, where the key stream would have given \<open>[3, 0, 1]\<close>, and leaves
  \<^verbatim>\<open>pos\<close> and the cipher stream where they were although the source has advanced.
\<close>

theorem Read_error_with_bytes_not_decrypted:
  "Read brokenCryptor [1, 2, 3] [0, 0, 0, 0]
     = (([1, 2, 3, 0], 3, Some (Err ''connection reset by peer'')), brokenCryptor, [])
   \<and> fst (XORKeyStream (the (stream brokenCryptor)) [1, 2, 3]) = [3, 0, 1]"
proof -
  have rd: "brokenRead [1, 2, 3] [0, 0, 0, 0]
      = (([1, 2, 3, 0], 3, Some (Err ''connection reset by peer'')), [])"
    by (simp add: brokenRead_def Let_def)
  have "Read brokenCryptor [1, 2, 3] [0, 0, 0, 0]
     = (([1, 2, 3, 0], 3, Some (Err ''connection reset by peer'')), brokenCryptor, [])"
    by (rule Read_other_error_raw [where rd = brokenRead, OF _ _ rd])
       (simp_all add: brokenCryptor_fields)
  moreover have "fst (XORKeyStream (the (stream brokenCryptor)) [1, 2, 3]) = [3, 0, 1]"
    by (simp add: brokenCryptor_fields NewCTR_def toyCipher_def Let_def)
  ultimately show ?thesis by simp
qed

subsection \<open>Subscribers and the event hub\<close>

lemmas subscriber_run_defs =
  Publish_def publishLocked_def flush_def flushLocked_def Stop_def
  setOnline_def setOffline_def fsTakeBySubscriber_def fsCreate_def freshSubscriber_def
  emptyStore_def pendingEvent_def mkEvent_def alice_def Let_def

text \<open>
  Claim C10 says that whenever \<^verbatim>\<open>flush\<close> runs offline on a non-empty buffer the cached
  owner is not nil. \<^verbatim>\<open>setOnline\<close> sets the cache to nil and nothing on the way to the
  flush restores it: on a new subscriber, \<^verbatim>\<open>setOnline\<close>, \<^verbatim>\<open>setOffline\<close>, a publish and
  the flush of the debounce timer end in the nil pointer dereference of
  \<^verbatim>\<open>s.ownerCached.ID\<close>.
\<close>

theorem flush_offline_nil_owner_panics:
  "newSubscriber \<lparr>ctxUser = Some alice\<rparr> ''c1'' 100 = Inr freshSubscriber
   \<and> applyOps (\<lambda>i. Inr alice) (freshSubscriber, emptyStore)
        [OpSetOnline, OpSetOffline 200, OpPublish pendingEvent, OpFlush]
      = Inl (Panic ''nil pointer dereference'')"
  by (simp add: newSubscriber_def UserFromContext_def IsAnonymousUser_def subscriber_run_defs)

text \<open>
  Claim C5 says that \<^verbatim>\<open>Unsubscribe\<close> persists the pending events of a subscriber to the
  durable store. \<^verbatim>\<open>Stop\<close> runs first, while the subscriber is still online, and flushes
  the buffer to the channel; \<^verbatim>\<open>setOffline\<close> then finds the buffer empty. With a full
  channel the pending event is in no place afterwards: the buffer is empty, the channel
  holds the same 16 events as before and the store has no row.
\<close>

theorem Unsubscribe_online_full_channel_loses_buffer:
  "Unsubscribe (hubWith busySubscriber) emptyStore 42 ''c1'' 500
     = Inr (hubWith (busySubscriber\<lparr>online := False, offlineSince := 500, buffer := [],
                                      timer := False\<rparr>), emptyStore)"
  by (simp add: Unsubscribe_def hubWith_def busySubscriber_def subscriber_run_defs
      DebounceEvents_def runEvents_def debounceStep_def emitEvent_def trySend_def bufSize_def
      EventTypeCreate_def EventTypeModify_def EventTypeRename_def EventTypeDelete_def)

text \<open>
  The claim C7 as written fails when a subscriber that is not closed exists under the id:
  \<^verbatim>\<open>Subscribe\<close> without a user reactivates it and returns \<^verbatim>\<open>resumed = true\<close> and no
  error.
\<close>

theorem Subscribe_unauthenticated_resumes_counterexample:
  "fst (Subscribe (hubWith offlineSubscriber) emptyStore noUser 42 ''c1'' 500) = (True, None)"
  by (simp add: Subscribe_def hubWith_def offlineSubscriber_def isClosed_def noUser_def
      subscriber_run_defs)

lemma newSubscriber_unauthenticated:
  "unauthenticated ctx \<Longrightarrow> \<exists>err. newSubscriber ctx id' now = Inl err"
  by (auto simp: unauthenticated_def newSubscriber_def split: option.splits)

lemma setOnline_closed: "closed (fst (setOnline s st)) = closed s"
  by (simp add: setOnline_def Let_def split: prod.splits sum.splits)

text \<open>
  Claim C7, as amended. \<^verbatim>\<open>Subscribe\<close> with a context that carries no authenticated
  user never creates a subscriber. On a closed hub it returns \<^verbatim>\<open>ErrEventHubClosed\<close> and
  changes nothing. On an open hub with no subscriber under (topic, id) it returns the
  error of \<^verbatim>\<open>newSubscriber\<close> and every registered subscriber and the store stay as they
  were; with a closed subscriber under (topic, id) it returns that error as well, and
  the closed subscriber is evicted. With a subscriber under (topic, id) that is not
  closed there is no user check: the subscriber is reactivated by \<^verbatim>\<open>setOnline\<close>, which
  replaces it in the registry and may take its events from the store, and the call
  returns \<^verbatim>\<open>resumed = true\<close> and no error. No other entry of the registry changes.
\<close>

theorem Subscribe_unauthenticated:
  assumes "unauthenticated ctx"
  shows "fst (Subscribe h st ctx topic id' now) =
          (if hubClosed h then (False, Some ErrEventHubClosed)
           else case lookupSub h topic id' of
                  None \<Rightarrow> (False, Some (Err ''user not found''))
                | Some s \<Rightarrow> if closed s then (False, Some (Err ''user not found''))
                            else (True, None))
       \<and> lookupSub (fst (snd (Subscribe h st ctx topic id' now))) t i =
          (if \<not> hubClosed h \<and> t = topic \<and> i = id'
           then (case lookupSub h topic id' of
                   None \<Rightarrow> None
                 | Some s \<Rightarrow> if closed s then None else Some (fst (setOnline s st)))
           else lookupSub h t i)
       \<and> snd (snd (Subscribe h st ctx topic id' now)) =
          (if hubClosed h then st
           else case lookupSub h topic id' of
                  None \<Rightarrow> st
                | Some s \<Rightarrow> if closed s then st else snd (setOnline s st))
       \<and> hubClosed (fst (snd (Subscribe h st ctx topic id' now))) = hubClosed h
       \<and> (lookupSub (fst (snd (Subscribe h st ctx topic id' now))) t i \<noteq> None
            \<longrightarrow> lookupSub h t i \<noteq> None)"
proof -
  have new: "newSubscriber ctx id' now = Inl (Err ''user not found'')"
    using assms by (auto simp: unauthenticated_def newSubscriber_def split: option.splits)
  show ?thesis
    by (auto simp: Subscribe_def createIn_def new lookupSub_def isClosed_def Let_def
        split: option.splits prod.splits if_splits)
qed

theorem Subscribe_unauthenticated_witness:
  "unauthenticated noUser
   \<and> fst (Subscribe (hubWith offlineSubscriber) emptyStore noUser 42 ''c2'' 500)
       = (False, Some (Err ''user not found''))
   \<and> lookupSub (fst (snd (Subscribe (hubWith offlineSubscriber) emptyStore noUser 42 ''c2'' 500)))
         42 ''c2'' = None
   \<and> lookupSub (fst (snd (Subscribe (hubWith offlineSubscriber) emptyStore noUser 42 ''c2'' 500)))
         42 ''c1'' = Some offlineSubscriber
   \<and> snd (snd (Subscribe (hubWith offlineSubscriber) emptyStore noUser 42 ''c2'' 500)) = emptyStore"
proof -
  have h: "unauthenticated noUser"
    by (simp add: unauthenticated_def noUser_def UserFromContext_def)
  have before: "lookupSub (hubWith offlineSubscriber) 42 ''c2'' = None"
    "lookupSub (hubWith offlineSubscriber) 42 ''c1'' = Some offlineSubscriber"
    "\<not> hubClosed (hubWith offlineSubscriber)"
    by (simp_all add: lookupSub_def hubWith_def)
  show ?thesis
    using h before
      Subscribe_unauthenticated
        [OF h, of "hubWith offlineSubscriber" emptyStore 42 "''c2''" 500 42 "''c2''"]
      Subscribe_unauthenticated
        [OF h, of "hubWith offlineSubscriber" emptyStore 42 "''c2''" 500 42 "''c1''"]
    by simp
qed

lemma sweepTopic_lookup:
  "fmlookup (sweepTopic now subs) id' =
    (case fmlookup subs id' of
       None \<Rightarrow> None
     | Some s \<Rightarrow> if shouldExpire now s then None else Some s)"
  by (simp add: sweepTopic_def expiredIn_def split: option.splits)

text \<open>
  Claim C9. One run of the sweeper over a hub that is not closed removes exactly the
  expired subscribers: a subscriber with \<^verbatim>\<open>online = false\<close>, \<^verbatim>\<open>offlineSince\<close> not zero
  and an offline age strictly above 14 days is closed and no longer registered, every
  other subscriber (online, or offline for 14 days or less) stays registered as it was,
  and no empty topic remains. The clock is read once for the whole run.
\<close>

theorem cleanup_removes_exactly_expired:
  assumes "\<not> hubClosed h"
  shows "lookupSub (fst (cleanupExpiredSubscribers now h st)) topic id' =
          (case lookupSub h topic id' of
             None \<Rightarrow> None
           | Some s \<Rightarrow>
               if \<not> online s \<and> offlineSince s \<noteq> 0 \<and> now - offlineSince s > 14 * day
               then None else Some s)
       \<and> fmlookup (topics (fst (cleanupExpiredSubscribers now h st))) topic \<noteq> Some fmempty
       \<and> (case lookupSub h topic id' of
             None \<Rightarrow> True
           | Some s \<Rightarrow>
               if \<not> online s \<and> offlineSince s \<noteq> 0 \<and> now - offlineSince s > 14 * day
               then lookupSub \<lparr>topics = snd (snd (cleanupExpiredSubscribers now h st)),
                               hubClosed = False\<rparr> topic id'
                      = Some (fst (closeSubscriber s st))
                    \<and> closed (fst (closeSubscriber s st))
               else True)"
proof -
  have exp: "\<And>s. (\<not> online s \<and> offlineSince s \<noteq> 0 \<and> now - offlineSince s > 14 * day)
      = shouldExpire now s"
    by (simp add: shouldExpire_def offlineMaxAge_def day_def)
  have look: "lookupSub (fst (cleanupExpiredSubscribers now h st)) topic id' =
          (case lookupSub h topic id' of
             None \<Rightarrow> None
           | Some s \<Rightarrow> if shouldExpire now s then None else Some s)"
  proof (cases "fmlookup (topics h) topic")
    case None
    then show ?thesis using assms
      by (simp add: cleanupExpiredSubscribers_def lookupSub_def Let_def)
  next
    case (Some subs)
    show ?thesis
    proof (cases "sweepTopic now subs = fmempty")
      case True
      have "fmlookup (sweepTopic now subs) id' = None" by (simp add: True)
      note none = this [unfolded sweepTopic_lookup]
      show ?thesis using assms Some True
        by (simp add: cleanupExpiredSubscribers_def lookupSub_def Let_def none)
    next
      case False
      then show ?thesis using assms Some
        by (simp add: cleanupExpiredSubscribers_def lookupSub_def Let_def sweepTopic_lookup)
    qed
  qed
  have nonempty: "fmlookup (topics (fst (cleanupExpiredSubscribers now h st))) topic \<noteq> Some fmempty"
    using assms by (simp add: cleanupExpiredSubscribers_def Let_def)
  have cl: "\<And>s. lookupSub h topic id' = Some s \<Longrightarrow> shouldExpire now s \<Longrightarrow>
      lookupSub \<lparr>topics = snd (snd (cleanupExpiredSubscribers now h st)), hubClosed = False\<rparr> topic id'
         = Some (fst (closeSubscriber s st))
      \<and> closed (fst (closeSubscriber s st))"
    using assms
    by (auto simp: cleanupExpiredSubscribers_def lookupSub_def Let_def closedOf_def expiredIn_def
        closeSubscriber_def split: option.splits)
  show ?thesis
    unfolding exp using look nonempty cl by (auto split: option.splits)
qed

theorem cleanup_removes_exactly_expired_witness:
  "\<not> hubClosed (hubWith expiredSubscriber)
   \<and> lookupSub (fst (cleanupExpiredSubscribers (200 + 15 * day) (hubWith expiredSubscriber) emptyStore))
        42 ''c1'' = None
   \<and> fmlookup (topics (fst (cleanupExpiredSubscribers (200 + 15 * day) (hubWith expiredSubscriber)
        emptyStore))) 42 \<noteq> Some fmempty
   \<and> lookupSub \<lparr>topics = snd (snd (cleanupExpiredSubscribers (200 + 15 * day)
                   (hubWith expiredSubscriber) emptyStore)), hubClosed = False\<rparr> 42 ''c1''
        = Some (fst (closeSubscriber expiredSubscriber emptyStore))
   \<and> closed (fst (closeSubscriber expiredSubscriber emptyStore))"
proof -
  have h: "\<not> hubClosed (hubWith expiredSubscriber)" by (simp add: hubWith_def)
  have l: "lookupSub (hubWith expiredSubscriber) 42 ''c1'' = Some expiredSubscriber"
    by (simp add: lookupSub_def hubWith_def)
  have e: "\<not> online expiredSubscriber \<and> offlineSince expiredSubscriber \<noteq> 0
      \<and> 200 + 15 * day - offlineSince expiredSubscriber > 14 * day"
    by (simp add: expiredSubscriber_def freshSubscriber_def day_def hour_def)
  show ?thesis
    using h cleanup_removes_exactly_expired
      [OF h, of "200 + 15 * day" emptyStore 42 "''c1''"]
    by (simp add: l e)
qed

end
